theory Spec2Isabelle
  imports Complex_Main "HOL-Library.AList"
begin

section \<open>Strings and paths\<close>

text \<open>
  A Python \<open>str\<close> is modelled as a \<open>string\<close> whose characters are the code points
  below 256. File contents are byte lists of the same type.
\<close>

type_synonym path = string

text \<open>
  \<open>str.lower()\<close> on the code points below 256: the ASCII capitals and the Latin-1
  capitals (U+00C0 .. U+00DE without the multiplication sign U+00D7) move to the letter
  32 places further on; every other character stays.
\<close>

definition upper_chars :: "char list" where
  "upper_chars = ''ABCDEFGHIJKLMNOPQRSTUVWXYZ'' @
     [CHR 0xC0, CHR 0xC1, CHR 0xC2, CHR 0xC3, CHR 0xC4, CHR 0xC5, CHR 0xC6, CHR 0xC7,
      CHR 0xC8, CHR 0xC9, CHR 0xCA, CHR 0xCB, CHR 0xCC, CHR 0xCD, CHR 0xCE, CHR 0xCF,
      CHR 0xD0, CHR 0xD1, CHR 0xD2, CHR 0xD3, CHR 0xD4, CHR 0xD5, CHR 0xD6,
      CHR 0xD8, CHR 0xD9, CHR 0xDA, CHR 0xDB, CHR 0xDC, CHR 0xDD, CHR 0xDE]"

definition lower_chars :: "char list" where
  "lower_chars = ''abcdefghijklmnopqrstuvwxyz'' @
     [CHR 0xE0, CHR 0xE1, CHR 0xE2, CHR 0xE3, CHR 0xE4, CHR 0xE5, CHR 0xE6, CHR 0xE7,
      CHR 0xE8, CHR 0xE9, CHR 0xEA, CHR 0xEB, CHR 0xEC, CHR 0xED, CHR 0xEE, CHR 0xEF,
      CHR 0xF0, CHR 0xF1, CHR 0xF2, CHR 0xF3, CHR 0xF4, CHR 0xF5, CHR 0xF6,
      CHR 0xF8, CHR 0xF9, CHR 0xFA, CHR 0xFB, CHR 0xFC, CHR 0xFD, CHR 0xFE]"

definition lower_char :: "char \<Rightarrow> char" where
  "lower_char c = (case map_of (zip upper_chars lower_chars) c of None \<Rightarrow> c | Some d \<Rightarrow> d)"

definition lower :: "string \<Rightarrow> string" where
  "lower s = map lower_char s"

text \<open>
  \<open>str.rfind(c)\<close> for a one-character needle: the highest index holding \<open>c\<close>,
  or \<open>-1\<close> when there is none.
\<close>

definition rfind :: "string \<Rightarrow> char \<Rightarrow> int" where
  "rfind p c =
     (if c \<in> set p
      then int (length p) - 1 - int (length (takeWhile (\<lambda>x. x \<noteq> c) (rev p)))
      else - 1)"

text \<open>
  \<open>os.path.splitext\<close> (POSIX). The library's loop over the leading dots of the last
  component
  \<^verbatim>\<open>
      while filenameIndex < dotIndex:
          if p[filenameIndex:filenameIndex+1] != extsep:
              return p[:dotIndex], p[dotIndex:]
          filenameIndex += 1
  \<close>
  is \<open>leading_dots_loop\<close>, which answers whether the \<open>return\<close> inside the loop is
  reached.
\<close>

function leading_dots_loop :: "string \<Rightarrow> nat \<Rightarrow> nat \<Rightarrow> bool" where
  "leading_dots_loop p filenameIndex dotIndex =
     (if filenameIndex < dotIndex
      then (if p ! filenameIndex \<noteq> CHR ''.'' then True
            else leading_dots_loop p (Suc filenameIndex) dotIndex)
      else False)"
  by pat_completeness auto
termination
  by (relation "measure (\<lambda>(p, filenameIndex, dotIndex). dotIndex - filenameIndex)") auto

definition splitext :: "path \<Rightarrow> string \<times> string" where
  "splitext p =
     (let sepIndex = rfind p CHR ''/'';
          dotIndex = rfind p CHR ''.''
      in if dotIndex > sepIndex \<and> leading_dots_loop p (nat (sepIndex + 1)) (nat dotIndex)
         then (take (nat dotIndex) p, drop (nat dotIndex) p)
         else (p, []))"

text \<open>\<open>os.path.join\<close> (POSIX) of two components.\<close>

definition join :: "path \<Rightarrow> path \<Rightarrow> path" where
  "join a b =
     (if b \<noteq> [] \<and> hd b = CHR ''/'' then b
      else if a = [] \<or> last a = CHR ''/'' then a @ b
      else a @ ''/'' @ b)"

text \<open>
  \<open>str.split(sep)\<close> for a one-character separator: every occurrence cuts, and the
  result always has at least one (maybe empty) piece.
\<close>

fun split :: "char \<Rightarrow> string \<Rightarrow> string list" where
  "split sep [] = [[]]"
| "split sep (c # cs) =
     (if c = sep then [] # split sep cs
      else (case split sep cs of
              [] \<Rightarrow> [[c]]
            | w # ws \<Rightarrow> (c # w) # ws))"

text \<open>\<open>sep.join(pieces)\<close>.\<close>

fun str_join :: "string \<Rightarrow> string list \<Rightarrow> string" where
  "str_join sep [] = []"
| "str_join sep [w] = w"
| "str_join sep (w # ws) = w @ sep @ str_join sep ws"

section \<open>Module constants\<close>

definition PKGDIR :: path where "PKGDIR = ''/app''"
definition SRCDIR :: path where "SRCDIR = ''/source''"
definition DSTDIR :: path where "DSTDIR = ''/dest''"

definition ACCEPTED_EXTENSIONS :: "string list" where
  "ACCEPTED_EXTENSIONS =
     [''.jpg'', ''.jpeg'', ''.mpg'', ''.mp4'', ''.png'',
      ''.mov'', ''.thm'', ''.avi'', ''.raw'', ''.arw'',
      ''.heic'', ''.heif'', ''.nef'', ''.3gp'']"

section \<open>EventHandler: the event router\<close>

text \<open>
  The three notifications the handler implements. Queues are FIFO lists: \<open>put\<close>
  appends at the end, \<open>get\<close> takes the head.
\<close>

datatype event = IN_CREATE path | IN_CLOSE_WRITE path | IN_MOVED_TO path

record queues =
  workq :: "path list"
  watchq :: "path list"

definition is_relevant_file :: "path \<Rightarrow> bool" where
  "is_relevant_file p = (let ext = snd (splitext p) in lower ext \<in> set ACCEPTED_EXTENSIONS)"

definition process_IN_CREATE :: "path \<Rightarrow> queues \<Rightarrow> queues" where
  "process_IN_CREATE pathname q =
     (if is_relevant_file pathname then q\<lparr>watchq := watchq q @ [pathname]\<rparr> else q)"

definition process_IN_CLOSE_WRITE :: "path \<Rightarrow> queues \<Rightarrow> queues" where
  "process_IN_CLOSE_WRITE pathname q =
     (if is_relevant_file pathname then q\<lparr>watchq := watchq q @ [pathname]\<rparr> else q)"

definition process_IN_MOVED_TO :: "path \<Rightarrow> queues \<Rightarrow> queues" where
  "process_IN_MOVED_TO pathname q =
     (if is_relevant_file pathname then q\<lparr>workq := workq q @ [pathname]\<rparr> else q)"

text \<open>The notifier calls the method named after the event's kind.\<close>

fun dispatch :: "event \<Rightarrow> queues \<Rightarrow> queues" where
  "dispatch (IN_CREATE pathname) q = process_IN_CREATE pathname q"
| "dispatch (IN_CLOSE_WRITE pathname) q = process_IN_CLOSE_WRITE pathname q"
| "dispatch (IN_MOVED_TO pathname) q = process_IN_MOVED_TO pathname q"

section \<open>Regular expressions\<close>

text \<open>
  The fragment of Python's \<open>re\<close> that \<open>Worker.rename_re\<close> uses: a literal
  character, \<open>\s+\<close> and the capturing group \<open>(\S+)\<close>. For a \<open>str\<close> pattern \<open>\s\<close>
  is the Unicode whitespace class; below code point 256 that is the twelve characters
  of \<open>whitespace\<close>.
\<close>

definition whitespace :: "char list" where
  "whitespace =
     [CHR 0x09, CHR 0x0A, CHR 0x0B, CHR 0x0C, CHR 0x0D,
      CHR 0x1C, CHR 0x1D, CHR 0x1E, CHR 0x1F, CHR 0x20, CHR 0x85, CHR 0xA0]"

definition isspace :: "char \<Rightarrow> bool" where
  "isspace c = (c \<in> set whitespace)"

datatype rx = Lit char | Spaces | NonSpaces

text \<open>
  A greedy \<open>+\<close> first takes the longest run, then gives characters back one at a time
  until the rest of the pattern matches; it never takes fewer than one. \<open>greedy k cap s n\<close>
  tries the lengths \<open>n, n - 1, \<dots>, 1\<close> in this order with the continuation \<open>k\<close>.
\<close>

primrec greedy :: "(string \<Rightarrow> string list option) \<Rightarrow> bool \<Rightarrow> string \<Rightarrow> nat \<Rightarrow> string list option" where
  "greedy k cap s 0 = None"
| "greedy k cap s (Suc n) =
     (case k (drop (Suc n) s) of
        Some gs \<Rightarrow> Some (if cap then take (Suc n) s # gs else gs)
      | None \<Rightarrow> greedy k cap s n)"

text \<open>
  \<open>pattern.match(s)\<close>: anchored at the start of \<open>s\<close>, not at its end. The result is the
  list of the groups of the first match in backtracking order, or \<open>None\<close>.
\<close>

primrec rx_match :: "rx list \<Rightarrow> string \<Rightarrow> string list option" where
  "rx_match [] s = Some []"
| "rx_match (r # rs) s =
     (case r of
        Lit c \<Rightarrow> (case s of [] \<Rightarrow> None | x # xs \<Rightarrow> if x = c then rx_match rs xs else None)
      | Spaces \<Rightarrow> greedy (rx_match rs) False s (length (takeWhile isspace s))
      | NonSpaces \<Rightarrow> greedy (rx_match rs) True s (length (takeWhile (\<lambda>c. \<not> isspace c) s)))"

section \<open>Config\<close>

text \<open>
  \<open>os.environ\<close> is a map from names to strings. \<open>os.environ.get(k, d)\<close> returns the
  default \<open>d\<close> as it is, so with the default \<open>True\<close> the value is a string or a bool.
\<close>

type_synonym environ = "string \<rightharpoonup> string"

datatype pyval = PStr string | PBool bool

datatype exn = TypeError | FileNotFoundError | OSError | KeyError | RuntimeError | AttributeError

definition environ_get :: "environ \<Rightarrow> string \<Rightarrow> pyval \<Rightarrow> pyval" where
  "environ_get e k d = (case e k of None \<Rightarrow> d | Some v \<Rightarrow> PStr v)"

text \<open>Python's truth value of a string or a bool.\<close>

fun truthy :: "pyval \<Rightarrow> bool" where
  "truthy (PStr s) = (s \<noteq> [])"
| "truthy (PBool b) = b"

text \<open>\<open>'literal' + v\<close>: a \<open>str\<close> can only be concatenated with a \<open>str\<close>.\<close>

fun str_add :: "string \<Rightarrow> pyval \<Rightarrow> exn + string" where
  "str_add s (PStr t) = Inr (s @ t)"
| "str_add s (PBool b) = Inl TypeError"

text \<open>
  A log line. \<open>log\<close> prefixes the time of day, which is left out. The text of the
  \<open>'Moved %s to %s'\<close> line shows both paths relative to their common prefix
  (\<open>os.path.relpath\<close>); the entry \<open>Moved\<close> keeps the two paths themselves. A logged
  traceback is kept as the exception it reports.
\<close>

datatype log_entry = Msg string | Moved path path | Traceback exn

definition DEFAULT_DSTFMT :: string where
  "DEFAULT_DSTFMT = ''%Y/%m/%Y%m%d_%H%M%S%%-uc.%%e''"

definition UI_SRCDIR :: path where
  "UI_SRCDIR = SRCDIR"

definition UI_DSTDIR :: path where
  "UI_DSTDIR = DSTDIR"

definition UI_DSTFMT :: "environ \<Rightarrow> pyval" where
  "UI_DSTFMT e = environ_get e ''FORMAT'' (PStr DEFAULT_DSTFMT)"

definition UI_DELETE_DUPS :: "environ \<Rightarrow> pyval" where
  "UI_DELETE_DUPS e = environ_get e ''DELETE_DUPLICATE'' (PBool True)"

definition UI_LOCALE :: "environ \<Rightarrow> pyval" where
  "UI_LOCALE e = environ_get e ''LOCALE'' (PStr ''zh_CN.utf8'')"

text \<open>
  \<open>Config.__init__\<close>: three log calls, each of a concatenation that may raise. The
  result is what was logged before the constructor returned or raised, and the
  exception if it raised.
\<close>

definition Config_init :: "environ \<Rightarrow> log_entry list \<times> exn option" where
  "Config_init e =
     (case str_add ''ENV FORMAT: '' (environ_get e ''FORMAT'' (PStr DEFAULT_DSTFMT)) of
        Inl x \<Rightarrow> ([], Some x)
      | Inr m1 \<Rightarrow>
         (case str_add ''ENV DELETE_DUPLICATE: '' (environ_get e ''DELETE_DUPLICATE'' (PBool True)) of
            Inl x \<Rightarrow> ([Msg m1], Some x)
          | Inr m2 \<Rightarrow>
             (case str_add ''ENV LOCALE: '' (environ_get e ''LOCALE'' (PStr ''zh_CN.utf8'')) of
                Inl x \<Rightarrow> ([Msg m1, Msg m2], Some x)
              | Inr m3 \<Rightarrow> ([Msg m1, Msg m2, Msg m3], None))))"

text \<open>
  The main block up to the point where the threads exist: \<open>cfg = Config()\<close> stands
  inside \<open>try\<close>, whose handler logs the traceback; nothing follows the handler, so
  the process ends. \<open>Started\<close> means that the constructor returned and the Worker and
  Watcher threads are created next.
\<close>

datatype startup = Started | Aborted

definition main_startup :: "environ \<Rightarrow> log_entry list \<times> startup" where
  "main_startup e =
     (case Config_init e of
        (lg, None) \<Rightarrow> (lg, Started)
      | (lg, Some x) \<Rightarrow> (lg @ [Traceback x], Aborted))"

section \<open>Worker: rename and duplicate elimination\<close>

text \<open>
  \<open>rename_re = re.compile(r"'(\S+)'\s+-->\s+'(\S+)'")\<close>. The quote character is
  written \<open>CHR 0x27\<close>.
\<close>

definition rename_re :: "rx list" where
  "rename_re =
     [Lit (CHR 0x27), NonSpaces, Lit (CHR 0x27), Spaces,
      Lit CHR ''-'', Lit CHR ''-'', Lit CHR ''>'', Spaces,
      Lit (CHR 0x27), NonSpaces, Lit (CHR 0x27)]"

text \<open>
  The disk: the files by path. A file has what \<open>os.stat\<close> reports of it (the type bits
  of \<open>st_mode\<close>, \<open>st_mtime\<close>; \<open>st_size\<close> is the number of its bytes) and its bytes. Two
  different path strings are two different files.
\<close>

datatype ifmt = S_IFREG | S_IFDIR

record inode =
  st_ifmt :: ifmt
  st_mtime :: real
  content :: string

type_synonym disk = "path \<rightharpoonup> inode"

definition st_size :: "inode \<Rightarrow> nat" where
  "st_size f = length (content f)"

definition os_path_exists :: "disk \<Rightarrow> path \<Rightarrow> bool" where
  "os_path_exists d p = (d p \<noteq> None)"

text \<open>
  \<open>filecmp.cmp(f1, f2, False)\<close>, as the library has it:
  \<^verbatim>\<open>
      s1 = _sig(os.stat(f1))
      s2 = _sig(os.stat(f2))
      if s1[0] != stat.S_IFREG or s2[0] != stat.S_IFREG:
          return False
      if shallow and s1 == s2:
          return True
      if s1[1] != s2[1]:
          return False
      outcome = _cache.get((f1, f2, s1, s2))
      if outcome is None:
          outcome = _do_cmp(f1, f2)
          if len(_cache) > 100:
              clear_cache()
          _cache[f1, f2, s1, s2] = outcome
      return outcome
  \<close>
  \<open>_sig\<close> is the triple of type, size and modification time. \<open>_cache\<close> is a dictionary of
  the module, so it lives as long as the process: an association list here. \<open>_do_cmp\<close>
  reads both files and compares their bytes. \<open>os.stat\<close> raises on a missing file.
\<close>

type_synonym sig = "ifmt \<times> nat \<times> real"

type_synonym cache = "((path \<times> path \<times> sig \<times> sig) \<times> bool) list"

definition sig_of :: "inode \<Rightarrow> sig" where
  "sig_of f = (st_ifmt f, st_size f, st_mtime f)"

definition os_stat :: "disk \<Rightarrow> path \<Rightarrow> exn + inode" where
  "os_stat d p = (case d p of None \<Rightarrow> Inl FileNotFoundError | Some f \<Rightarrow> Inr f)"

definition do_cmp :: "inode \<Rightarrow> inode \<Rightarrow> bool" where
  "do_cmp a b = (content a = content b)"

definition filecmp_cmp :: "disk \<Rightarrow> cache \<Rightarrow> path \<Rightarrow> path \<Rightarrow> (exn + bool) \<times> cache" where
  "filecmp_cmp d c f1 f2 =
     (case os_stat d f1 of
        Inl x \<Rightarrow> (Inl x, c)
      | Inr a \<Rightarrow>
         (case os_stat d f2 of
            Inl x \<Rightarrow> (Inl x, c)
          | Inr b \<Rightarrow>
             (let s1 = sig_of a; s2 = sig_of b
              in if fst s1 \<noteq> S_IFREG \<or> fst s2 \<noteq> S_IFREG then (Inr False, c)
                 else if fst (snd s1) \<noteq> fst (snd s2) then (Inr False, c)
                 else (case map_of c (f1, f2, s1, s2) of
                         Some outcome \<Rightarrow> (Inr outcome, c)
                       | None \<Rightarrow>
                          (let outcome = do_cmp a b;
                               c' = (if length c > 100 then [] else c)
                           in (Inr outcome, AList.update (f1, f2, s1, s2) outcome c'))))))"

text \<open>\<open>os.remove\<close> raises on a missing path and on a directory.\<close>

definition os_remove :: "disk \<Rightarrow> path \<Rightarrow> exn + disk" where
  "os_remove d p =
     (case d p of
        None \<Rightarrow> Inl FileNotFoundError
      | Some f \<Rightarrow> if st_ifmt f = S_IFDIR then Inl OSError else Inr (d(p := None)))"

text \<open>
  What the Worker's process works on: the disk and the cache of the \<open>filecmp\<close> module.
\<close>

record world =
  files :: disk
  cmp_cache :: cache

text \<open>
  What \<open>Spawn(cmd)\<close> hands back: \<open>Popen\<close> raises \<open>OSError\<close> when the program cannot
  be run; otherwise the exit status and the two captured streams.
\<close>

record spawn =
  retval :: int
  stdout :: string
  stderr :: string

text \<open>
  Lines 105 to 111 of \<open>Worker.process_file\<close>, the body of the loop after the
  \<open>'Moved'\<close> log line: the duplicate check of one destination. The result is the
  lines logged, the disk and the cache afterwards and the exception raised, if any.
\<close>

definition check_duplicate :: "environ \<Rightarrow> path \<Rightarrow> world \<Rightarrow> log_entry list \<times> world \<times> exn option" where
  "check_duplicate e dstfile w =
     (if UI_DSTFMT e = PStr DEFAULT_DSTFMT \<and> truthy (UI_DELETE_DUPS e) \<and> CHR ''-'' \<in> set dstfile
      then
        (let extension = snd (splitext dstfile);
             dupfile = hd (split CHR ''-'' dstfile) @ extension;
             checking = Msg (''Check if '' @ dstfile @ '' is a duplicate file of '' @ dupfile)
         in if os_path_exists (files w) dupfile
            then (case filecmp_cmp (files w) (cmp_cache w) dstfile dupfile of
                    (Inl x, c) \<Rightarrow> ([checking], w\<lparr>cmp_cache := c\<rparr>, Some x)
                  | (Inr same, c) \<Rightarrow>
                     if same
                     then (case os_remove (files w) dstfile of
                             Inl x \<Rightarrow> ([checking], w\<lparr>cmp_cache := c\<rparr>, Some x)
                           | Inr d' \<Rightarrow>
                              ([checking,
                                Msg (''Removed '' @ dstfile @ '': a duplicate of '' @ dupfile)],
                               \<lparr>files = d', cmp_cache = c\<rparr>, None))
                     else ([checking], w\<lparr>cmp_cache := c\<rparr>, None))
            else ([checking], w, None))
      else ([], w, None))"

text \<open>
  The loop over the lines of the standard output (lines 98 to 111). The state is the
  local \<open>dstfile\<close> (\<open>None\<close> until a line reports the rename of \<open>srcfile\<close>), the log,
  the disk and the cache. An exception ends the loop.
\<close>

fun scan_lines ::
  "environ \<Rightarrow> path \<Rightarrow> string list \<Rightarrow> path option \<Rightarrow> log_entry list \<Rightarrow> world
     \<Rightarrow> path option \<times> log_entry list \<times> world \<times> exn option" where
  "scan_lines e srcfile [] dstfile lg w = (dstfile, lg, w, None)"
| "scan_lines e srcfile (line # rest) dstfile lg w =
     (case rx_match rename_re line of
        Some [g1, g2] \<Rightarrow>
          if g1 = srcfile
          then (case check_duplicate e g2 w of
                  (lg', w', Some x) \<Rightarrow> (Some g2, lg @ [Moved srcfile g2] @ lg', w', Some x)
                | (lg', w', None) \<Rightarrow>
                    scan_lines e srcfile rest (Some g2) (lg @ [Moved srcfile g2] @ lg') w')
          else scan_lines e srcfile rest dstfile lg w
      | _ \<Rightarrow> scan_lines e srcfile rest dstfile lg w)"

text \<open>
  \<open>Worker.process_file\<close>. The call of exiftool is the environment's: \<open>out\<close> is what
  \<open>Spawn(cmd)\<close> gave for this path and \<open>files w\<close> is the disk as exiftool left it.
\<close>

definition Worker_process_file ::
  "environ \<Rightarrow> path \<Rightarrow> exn + spawn \<Rightarrow> world \<Rightarrow> log_entry list \<times> world \<times> exn option" where
  "Worker_process_file e path out w =
     (let srcfile = join UI_SRCDIR path
      in case out of
           Inl x \<Rightarrow> ([], w, Some x)
         | Inr p \<Rightarrow>
            if retval p \<noteq> 0
            then ([Msg (''exiftool FAILED for '' @ path @ '': '' @
                        str_join '' '' (split (CHR 0x0A) (stderr p)))], w, None)
            else (case scan_lines e srcfile (split (CHR 0x0A) (stdout p)) None [] w of
                    (dstfile, lg, w', Some x) \<Rightarrow> (lg, w', Some x)
                  | (None, lg, w', None) \<Rightarrow>
                      (lg @ [Msg ''exiftool succeeded, but no file rename information found''],
                       w', None)
                  | (Some dst, lg, w', None) \<Rightarrow> (lg, w', None)))"

section \<open>The thread loop of Worker and Watcher\<close>

text \<open>
  Both \<open>run\<close> methods are the same loop around their own \<open>process_file\<close>:
  \<^verbatim>\<open>
      errorCount = 0
      while errorCount < 5:
          try:
              path = self.workq.get()
              self.process_file(path)
              self.workq.task_done()
          except:
              errorCount += 1
              err = traceback.format_exc(2)
              log(err)
      log('Too many errors, Worker thread exiting')
  \<close>
  \<open>items\<close> is everything the queue will ever deliver, in order. \<open>get\<close> on an empty
  queue blocks for ever: the thread is then \<open>Waiting\<close> and has not exited. \<open>proc\<close>
  processes one item on the thread's state and says what it logged and whether it raised.
\<close>

datatype thread_status = Waiting | Exited

record ('i, 's) thread =
  status :: thread_status
  errorCount :: nat
  unread :: "'i list"
  state :: 's
  logged :: "log_entry list"

fun run_loop ::
  "string \<Rightarrow> ('i \<Rightarrow> 's \<Rightarrow> log_entry list \<times> 's \<times> exn option) \<Rightarrow> nat \<Rightarrow> 'i list \<Rightarrow> 's
     \<Rightarrow> log_entry list \<Rightarrow> ('i, 's) thread" where
  "run_loop role proc n [] s lg =
     (if n < 5
      then \<lparr>status = Waiting, errorCount = n, unread = [], state = s, logged = lg\<rparr>
      else \<lparr>status = Exited, errorCount = n, unread = [], state = s,
            logged = lg @ [Msg (''Too many errors, '' @ role @ '' thread exiting'')]\<rparr>)"
| "run_loop role proc n (item # items) s lg =
     (if n < 5
      then (case proc item s of
              (lg', s', None) \<Rightarrow> run_loop role proc n items s' (lg @ lg')
            | (lg', s', Some x) \<Rightarrow> run_loop role proc (n + 1) items s' (lg @ lg' @ [Traceback x]))
      else \<lparr>status = Exited, errorCount = n, unread = item # items, state = s,
            logged = lg @ [Msg (''Too many errors, '' @ role @ '' thread exiting'')]\<rparr>)"

definition run :: "string \<Rightarrow> ('i \<Rightarrow> 's \<Rightarrow> log_entry list \<times> 's \<times> exn option) \<Rightarrow> 'i list \<Rightarrow> 's
     \<Rightarrow> ('i, 's) thread" where
  "run role proc items s = run_loop role proc 0 items s []"

text \<open>
  \<open>Worker.run\<close>. An item of the work queue comes with the environment's answers while
  it is processed: the outcome of \<open>Spawn\<close> and the disk exiftool left. The thread's
  state is the disk after the last item and the cache of \<open>filecmp\<close>, which each item
  finds as the item before left it.
\<close>

type_synonym work_item = "path \<times> (exn + spawn) \<times> disk"

definition Worker_step :: "environ \<Rightarrow> work_item \<Rightarrow> world \<Rightarrow> log_entry list \<times> world \<times> exn option" where
  "Worker_step e item s =
     (case item of (path, out, d) \<Rightarrow> Worker_process_file e path out (s\<lparr>files := d\<rparr>))"

definition Worker_run :: "environ \<Rightarrow> work_item list \<Rightarrow> world \<Rightarrow> (work_item, world) thread" where
  "Worker_run e items s = run ''Worker'' (Worker_step e) items s"

section \<open>Watcher: the stability detector\<close>

text \<open>
  A \<open>LoggingTimer\<close> object. \<open>Created\<close>: constructed, not started. \<open>Shelved\<close>:
  cancelled before it was started. \<open>Pending\<close>: started and waiting for its interval to
  pass. \<open>Running\<close>: the interval has passed and the timer's thread is inside its function.
  \<open>Finished\<close>: its \<open>finished\<close> event is set, by \<open>cancel()\<close> or at the end of \<open>run\<close>;
  a timer cancelled while it waits never calls its function.
\<close>

datatype timer_status = Created | Shelved | Pending | Running | Finished

record ltimer =
  interval :: int
  tstatus :: timer_status

text \<open>
  The attributes of the Watcher object. \<open>active\<close> is a \<open>dict\<close>, which keeps its keys in
  insertion order: an association list, read front to back by \<open>items()\<close>. \<open>timers\<close>
  holds every timer object created so far; \<open>timer\<close> is the attribute \<open>self.timer\<close>,
  \<open>None\<close> or a reference (an index into \<open>timers\<close>). Times are the values of
  \<open>time.time()\<close>, as real numbers.
\<close>

record watcher = queues +
  active :: "(path \<times> real) list"
  timer :: "nat option"
  timers :: "ltimer list"

text \<open>The first loop of \<open>check_actives\<close>: the keys it puts on the work queue and into
  \<open>delete_keys\<close>, in the order of the dictionary.\<close>

fun stable_keys :: "real \<Rightarrow> (path \<times> real) list \<Rightarrow> path list" where
  "stable_keys now [] = []"
| "stable_keys now ((filepath, tstamp) # rest) =
     (if now - tstamp > 30 then filepath # stable_keys now rest else stable_keys now rest)"

text \<open>The second loop: \<open>del self.active[filepath]\<close> raises \<open>KeyError\<close> on a key that
  is not there.\<close>

fun del_keys :: "path list \<Rightarrow> (path \<times> real) list \<Rightarrow> (path \<times> real) list \<times> exn option" where
  "del_keys [] a = (a, None)"
| "del_keys (filepath # rest) a =
     (if filepath \<in> fst ` set a then del_keys rest (AList.delete filepath a)
      else (a, Some KeyError))"

text \<open>
  \<open>Timer.cancel()\<close> sets the timer's \<open>finished\<close> event. \<open>Thread.start()\<close> raises
  \<open>RuntimeError\<close> on a thread that was started before; a timer started after it was
  cancelled ends at once.
\<close>

fun cancelled :: "timer_status \<Rightarrow> timer_status" where
  "cancelled Created = Shelved"
| "cancelled Shelved = Shelved"
| "cancelled Pending = Finished"
| "cancelled Running = Finished"
| "cancelled Finished = Finished"

definition cancel :: "nat \<Rightarrow> ltimer list \<Rightarrow> ltimer list" where
  "cancel i ts = (if i < length ts then ts[i := (ts ! i)\<lparr>tstatus := cancelled (tstatus (ts ! i))\<rparr>] else ts)"

definition set_status :: "nat \<Rightarrow> timer_status \<Rightarrow> ltimer list \<Rightarrow> ltimer list" where
  "set_status i st ts = (if i < length ts then ts[i := (ts ! i)\<lparr>tstatus := st\<rparr>] else ts)"

definition start :: "nat \<Rightarrow> ltimer list \<Rightarrow> exn + ltimer list" where
  "start i ts =
     (if i < length ts
      then (case tstatus (ts ! i) of
              Created \<Rightarrow> Inr (set_status i Pending ts)
            | Shelved \<Rightarrow> Inr (set_status i Finished ts)
            | _ \<Rightarrow> Inl RuntimeError)
      else Inl AttributeError)"

text \<open>
  \<open>Watcher.check_actives\<close>, its body run from the first line to the last with no other
  thread in between (lines 158 and 159 together make the new timer and start it).
\<close>

definition check_actives :: "real \<Rightarrow> watcher \<Rightarrow> watcher \<times> exn option" where
  "check_actives now w =
     (let delete_keys = stable_keys now (active w);
          w1 = w\<lparr>workq := workq w @ delete_keys\<rparr>
      in case del_keys delete_keys (active w1) of
           (a, Some x) \<Rightarrow> (w1\<lparr>active := a\<rparr>, Some x)
         | (a, None) \<Rightarrow>
            (let w2 = w1\<lparr>active := a\<rparr>
             in if length (active w2) > 0
                then (let ts = (case timer w2 of None \<Rightarrow> timers w2 | Some i \<Rightarrow> cancel i (timers w2))
                      in (w2\<lparr>timers := ts @ [\<lparr>interval = 5, tstatus = Pending\<rparr>],
                             timer := Some (length ts)\<rparr>, None))
                else (w2, None)))"

text \<open>
  \<open>Watcher.process_file\<close>, run in the same way. \<open>d\<close> is the disk when the path is taken
  from the queue, \<open>stamp\<close> the clock read at line 164 and \<open>now\<close> the clock read by the
  sweep.
\<close>

definition os_stat_st_size :: "disk \<Rightarrow> path \<Rightarrow> exn + int" where
  "os_stat_st_size d p = (case os_stat d p of Inl x \<Rightarrow> Inl x | Inr f \<Rightarrow> Inr (int (st_size f)))"

definition Watcher_process_file :: "disk \<Rightarrow> real \<Rightarrow> real \<Rightarrow> path \<Rightarrow> watcher \<Rightarrow> watcher \<times> exn option" where
  "Watcher_process_file d stamp now path w =
     (case (if os_path_exists d path then os_stat_st_size d path else Inr 0) of
        Inl x \<Rightarrow> (w, Some x)
      | Inr filesize \<Rightarrow>
         if filesize > 0
         then check_actives now (w\<lparr>active := AList.update path stamp (active w)\<rparr>)
         else (w, None))"

text \<open>\<open>Watcher.run\<close>: an item of the watch queue comes with the disk and the two clock
  readings of its processing.\<close>

type_synonym watch_item = "path \<times> disk \<times> real \<times> real"

definition Watcher_step :: "watch_item \<Rightarrow> watcher \<Rightarrow> log_entry list \<times> watcher \<times> exn option" where
  "Watcher_step item w =
     (case item of (path, d, stamp, now) \<Rightarrow>
        (case Watcher_process_file d stamp now path w of (w', x) \<Rightarrow> ([], w', x)))"

definition Watcher_run :: "watch_item list \<Rightarrow> watcher \<Rightarrow> (watch_item, watcher) thread" where
  "Watcher_run items w = run ''Watcher'' Watcher_step items w"

definition pending_timers :: "watcher \<Rightarrow> nat list" where
  "pending_timers w = filter (\<lambda>i. tstatus (timers w ! i) = Pending) [0..<length (timers w)]"

section \<open>The Watcher object under several threads\<close>

text \<open>
  \<open>check_actives\<close> runs on the Watcher thread (line 165) and on the thread of every
  timer that fires (line 158 passes it as the timer's function), on the one Watcher object
  and with no lock. A thread inside \<open>check_actives\<close> is at one of these places:
  \<^item> \<open>Begin\<close>: called, before line 146;
  \<^item> \<open>Iterating now n pos delete_keys\<close>: in the loop of lines 148 to 151, with the clock
    reading of line 146, the size the dictionary had when the iterator was made, the
    iterator's position and the keys collected so far;
  \<^item> \<open>Deleting keys\<close>: in the loop of lines 152 and 153, with the keys still to delete;
  \<^item> \<open>Checking\<close>: before line 155;
  \<^item> \<open>Cancelling\<close>: before lines 156 and 157;
  \<^item> \<open>Creating\<close>: before line 158;
  \<^item> \<open>Starting\<close>: before line 159;
  \<^item> \<open>Idle\<close>: not inside \<open>check_actives\<close>.
\<close>

datatype pc =
    Idle
  | Begin
  | Iterating real nat nat "path list"
  | Deleting "path list"
  | Checking
  | Cancelling
  | Creating
  | Starting

text \<open>
  One step of a thread inside \<open>check_actives\<close> on the shared object. The iterator of a
  dictionary raises \<open>RuntimeError\<close> when the dictionary has changed size since the
  iterator was made. Line 159 starts the timer \<open>self.timer\<close> refers to at that moment.
\<close>

fun sweep_step :: "real \<Rightarrow> pc \<Rightarrow> watcher \<Rightarrow> (exn + pc) \<times> watcher" where
  "sweep_step t Idle w = (Inr Idle, w)"
| "sweep_step t Begin w = (Inr (Iterating t (length (active w)) 0 []), w)"
| "sweep_step t (Iterating now n pos delete_keys) w =
     (if length (active w) \<noteq> n then (Inl RuntimeError, w)
      else if pos < n
      then (case active w ! pos of
              (filepath, tstamp) \<Rightarrow>
                if now - tstamp > 30
                then (Inr (Iterating now n (Suc pos) (delete_keys @ [filepath])),
                      w\<lparr>workq := workq w @ [filepath]\<rparr>)
                else (Inr (Iterating now n (Suc pos) delete_keys), w))
      else (Inr (Deleting delete_keys), w))"
| "sweep_step t (Deleting []) w = (Inr Checking, w)"
| "sweep_step t (Deleting (filepath # rest)) w =
     (if filepath \<in> fst ` set (active w)
      then (Inr (Deleting rest), w\<lparr>active := AList.delete filepath (active w)\<rparr>)
      else (Inl KeyError, w))"
| "sweep_step t Checking w = (if length (active w) > 0 then (Inr Cancelling, w) else (Inr Idle, w))"
| "sweep_step t Cancelling w =
     (Inr Creating,
      (case timer w of None \<Rightarrow> w | Some i \<Rightarrow> w\<lparr>timers := cancel i (timers w)\<rparr>))"
| "sweep_step t Creating w =
     (Inr Starting,
      w\<lparr>timers := timers w @ [\<lparr>interval = 5, tstatus = Created\<rparr>],
        timer := Some (length (timers w))\<rparr>)"
| "sweep_step t Starting w =
     (case timer w of
        None \<Rightarrow> (Inl AttributeError, w)
      | Some i \<Rightarrow>
         (case start i (timers w) of
            Inl x \<Rightarrow> (Inl x, w)
          | Inr ts \<Rightarrow> (Inr Idle, w\<lparr>timers := ts\<rparr>)))"

text \<open>At most \<open>k\<close> steps of one thread with no other thread in between.\<close>

fun sweep_steps :: "nat \<Rightarrow> real \<Rightarrow> pc \<Rightarrow> watcher \<Rightarrow> (exn + pc) \<times> watcher" where
  "sweep_steps 0 t p w = (Inr p, w)"
| "sweep_steps (Suc k) t p w =
     (case sweep_step t p w of
        (Inl x, w') \<Rightarrow> (Inl x, w')
      | (Inr p', w') \<Rightarrow> sweep_steps k t p' w')"

text \<open>
  The threads that touch the Watcher object, and the whole of it: the object, where each
  thread is, what the threads logged and the error count of \<open>Watcher.run\<close>.
\<close>

datatype tid = Watcher_thread | Timer_thread nat

record system =
  obj :: watcher
  pcs :: "tid \<Rightarrow> pc"
  tracebacks :: "log_entry list"
  watcher_errors :: nat

text \<open>
  What can happen next:
  \<^item> \<open>Dequeue path d stamp\<close>: the Watcher thread, waiting in \<open>get\<close> with fewer than five
    errors, takes \<open>path\<close> from the watch queue and runs lines 162 to 164 on the disk \<open>d\<close>;
    with a size above zero it stores the clock reading \<open>stamp\<close> and calls
    \<open>check_actives\<close>;
  \<^item> \<open>Fire i\<close>: the interval of the waiting timer \<open>i\<close> has passed and its thread calls
    \<open>check_actives\<close>;
  \<^item> \<open>Step t now\<close>: thread \<open>t\<close> takes its next step inside \<open>check_actives\<close> (\<open>now\<close> is
    the clock, read at line 146 only). An exception ends the call: \<open>Watcher.run\<close> counts
    and logs it, \<open>LoggingTimer.run\<close> logs it. When the call returns on a timer's thread,
    \<open>Timer.run\<close> sets the timer's \<open>finished\<close> event.
\<close>

datatype action = Dequeue path disk real | Fire nat | Step tid real

fun act :: "action \<Rightarrow> system \<Rightarrow> system" where
  "act (Dequeue path d stamp) s =
     (if pcs s Watcher_thread = Idle \<and> watcher_errors s < 5
      then (case (if os_path_exists d path then os_stat_st_size d path else Inr 0) of
              Inl x \<Rightarrow> s\<lparr>tracebacks := tracebacks s @ [Traceback x],
                          watcher_errors := watcher_errors s + 1\<rparr>
            | Inr filesize \<Rightarrow>
               if filesize > 0
               then s\<lparr>obj := (obj s)\<lparr>active := AList.update path stamp (active (obj s))\<rparr>,
                       pcs := (pcs s)(Watcher_thread := Begin)\<rparr>
               else s)
      else s)"
| "act (Fire i) s =
     (if i < length (timers (obj s)) \<and> tstatus (timers (obj s) ! i) = Pending
      then s\<lparr>obj := (obj s)\<lparr>timers := set_status i Running (timers (obj s))\<rparr>,
              pcs := (pcs s)(Timer_thread i := Begin)\<rparr>
      else s)"
| "act (Step t now) s =
     (if pcs s t = Idle then s
      else (case sweep_step now (pcs s t) (obj s) of
              (Inl x, w') \<Rightarrow>
                s\<lparr>obj := w', pcs := (pcs s)(t := Idle),
                  tracebacks := tracebacks s @ [Traceback x],
                  watcher_errors :=
                    (if t = Watcher_thread then watcher_errors s + 1 else watcher_errors s)\<rparr>
            | (Inr p', w') \<Rightarrow>
                if p' = Idle
                then s\<lparr>obj := (case t of
                                  Watcher_thread \<Rightarrow> w'
                                | Timer_thread i \<Rightarrow> w'\<lparr>timers := set_status i Finished (timers w')\<rparr>),
                        pcs := (pcs s)(t := Idle)\<rparr>
                else s\<lparr>obj := w', pcs := (pcs s)(t := p')\<rparr>))"

definition exec :: "action list \<Rightarrow> system \<Rightarrow> system" where
  "exec as s = foldl (\<lambda>s a. act a s) s as"

section \<open>Notions used to state the properties\<close>

text \<open>
  The line the rename program prints for a rename, as the interface describes it:
  \<open>'<source>' --> '<destination>'\<close>.
\<close>

definition rename_line :: "path \<Rightarrow> path \<Rightarrow> string" where
  "rename_line src dst = [CHR 0x27] @ src @ [CHR 0x27] @ '' --> '' @ [CHR 0x27] @ dst @ [CHR 0x27]"

text \<open>
  For each item of a queue, whether its processing raises when the items are processed
  one after the other, each on the state the one before it left; and the state the last
  of them leaves.
\<close>

fun raised :: "('i \<Rightarrow> 's \<Rightarrow> log_entry list \<times> 's \<times> exn option) \<Rightarrow> 'i list \<Rightarrow> 's \<Rightarrow> bool list" where
  "raised proc [] s = []"
| "raised proc (item # items) s =
     (case proc item s of (lg, s', x) \<Rightarrow> (x \<noteq> None) # raised proc items s')"

fun state_after :: "('i \<Rightarrow> 's \<Rightarrow> log_entry list \<times> 's \<times> exn option) \<Rightarrow> 'i list \<Rightarrow> 's \<Rightarrow> 's" where
  "state_after proc [] s = s"
| "state_after proc (item # items) s =
     (case proc item s of (lg, s', x) \<Rightarrow> state_after proc items s')"

definition exit_line :: "string \<Rightarrow> log_entry" where
  "exit_line role = Msg (''Too many errors, '' @ role @ '' thread exiting'')"

text \<open>
  The primary candidate of a destination, in the words of the description: everything from
  the first marker \<open>-\<close> on is dropped and the extension of the destination is put back.
\<close>

definition primary_candidate :: "path \<Rightarrow> path" where
  "primary_candidate dstfile =
     takeWhile (\<lambda>c. c \<noteq> CHR ''-'') dstfile @ snd (splitext dstfile)"

text \<open>The two log lines of the duplicate check, its guard (line 105), and the line
  logged for a run without a rename.\<close>

definition checking_line :: "path \<Rightarrow> log_entry" where
  "checking_line dstfile =
     Msg (''Check if '' @ dstfile @ '' is a duplicate file of '' @ primary_candidate dstfile)"

definition removed_line :: "path \<Rightarrow> log_entry" where
  "removed_line dstfile =
     Msg (''Removed '' @ dstfile @ '': a duplicate of '' @ primary_candidate dstfile)"

definition dedup_applies :: "environ \<Rightarrow> path \<Rightarrow> bool" where
  "dedup_applies e dstfile =
     (UI_DSTFMT e = PStr DEFAULT_DSTFMT \<and> truthy (UI_DELETE_DUPS e) \<and> CHR ''-'' \<in> set dstfile)"

definition no_rename_line :: log_entry where
  "no_rename_line = Msg ''exiftool succeeded, but no file rename information found''"

text \<open>
  Concrete inputs for the examples below. A regular file with a modification time and
  bytes; a destination with a marker and its primary; a disk on which both hold the same
  bytes, and one on which the marked file has other bytes of the same number with the same
  modification time; environments; runs of the rename program; items of the work queue.
\<close>

definition regular :: "real \<Rightarrow> string \<Rightarrow> inode" where
  "regular m bytes = \<lparr>st_ifmt = S_IFREG, st_mtime = m, content = bytes\<rparr>"

definition marked_dst :: path where
  "marked_dst = ''/dest/2024/03/20240315_120000-1.jpg''"

definition primary_dst :: path where
  "primary_dst = ''/dest/2024/03/20240315_120000.jpg''"

definition twin_disk :: disk where
  "twin_disk = [primary_dst \<mapsto> regular 1 ''abc'', marked_dst \<mapsto> regular 2 ''abc'']"

definition other_disk :: disk where
  "other_disk = [primary_dst \<mapsto> regular 1 ''abc'', marked_dst \<mapsto> regular 2 ''abd'']"

text \<open>The key under which \<open>filecmp\<close> keeps the comparison of the marked file with its
  primary on both disks: the two paths and the two signatures.\<close>

definition twin_key :: "path \<times> path \<times> sig \<times> sig" where
  "twin_key = (marked_dst, primary_dst, (S_IFREG, 3, 2), (S_IFREG, 3, 1))"

definition fresh :: "disk \<Rightarrow> world" where
  "fresh d = \<lparr>files = d, cmp_cache = []\<rparr>"

definition env_default :: environ where
  "env_default = [''DELETE_DUPLICATE'' \<mapsto> ''1'']"

definition env_false :: environ where
  "env_false = [''DELETE_DUPLICATE'' \<mapsto> ''false'']"

definition spaced_src :: path where
  "spaced_src = ''/source/my photo.jpg''"

definition verbose_out :: string where
  "verbose_out = ''======== /source/a.jpg'' @ [CHR 0x0A] @
     rename_line ''/source/a.jpg'' primary_dst @ [CHR 0x0A] @
     ''    1 image files updated''"



definition spaced_run :: spawn where
  "spaced_run = \<lparr>retval = 0, stdout = rename_line spaced_src primary_dst, stderr = []\<rparr>"

definition marked_run :: "path \<Rightarrow> spawn" where
  "marked_run src = \<lparr>retval = 0, stdout = rename_line src marked_dst, stderr = []\<rparr>"

definition good_item :: work_item where
  "good_item =
     (''/source/a.jpg'',
      Inr \<lparr>retval = 0, stdout = rename_line ''/source/a.jpg'' primary_dst, stderr = []\<rparr>,
      [primary_dst \<mapsto> regular 1 ''abc''])"

definition bad_item :: work_item where
  "bad_item = (''/source/b.jpg'', Inl OSError, Map.empty)"

definition twin_item :: work_item where
  "twin_item = (''/source/a.jpg'', Inr (marked_run ''/source/a.jpg''), twin_disk)"

definition other_item :: work_item where
  "other_item = (''/source/b.jpg'', Inr (marked_run ''/source/b.jpg''), other_disk)"

text \<open>
  An entry of the dictionary is stable at time \<open>now\<close> when more than 30 time units have
  passed since its timestamp: the test of line 149.
\<close>

definition stable :: "real \<Rightarrow> path \<times> real \<Rightarrow> bool" where
  "stable now entry = (now - snd entry > 30)"

text \<open>
  What a sweep is to do, said without the code: \<open>swept\<close> moves the stable entries from the
  dictionary to the end of the work queue; \<open>rescheduled\<close> cancels the timer \<open>self.timer\<close>
  refers to, and makes and starts one new timer, which \<open>self.timer\<close> then refers to;
  \<open>sweep_result\<close> reschedules when entries are left.
\<close>

definition swept :: "real \<Rightarrow> watcher \<Rightarrow> watcher" where
  "swept now w = w\<lparr>workq := workq w @ map fst (filter (stable now) (active w)),
                   active := filter (\<lambda>entry. \<not> stable now entry) (active w)\<rparr>"

definition rescheduled :: "watcher \<Rightarrow> watcher" where
  "rescheduled w =
     w\<lparr>timers := (case timer w of None \<Rightarrow> timers w | Some i \<Rightarrow> cancel i (timers w))
                   @ [\<lparr>interval = 5, tstatus = Pending\<rparr>],
       timer := Some (length (timers w))\<rparr>"

definition sweep_result :: "real \<Rightarrow> watcher \<Rightarrow> watcher" where
  "sweep_result now w =
     (if filter (\<lambda>entry. \<not> stable now entry) (active w) = [] then swept now w
      else rescheduled (swept now w))"

text \<open>
  Watcher objects, disks and runs of the threads for the examples below. In \<open>torn_sweep\<close>
  the timer's thread is inside the loop of line 148 when the Watcher thread stores a new
  path. In \<open>crossed_sweeps\<close> the Watcher thread and the timer's thread pass lines 156 and
  157 one after the other before either reaches line 158.
\<close>

definition watcher_start :: watcher where
  "watcher_start = \<lparr>workq = [], watchq = [], active = [], timer = None, timers = []\<rparr>"

definition disk_a :: disk where
  "disk_a = [''/source/a.jpg'' \<mapsto> regular 1 ''abc'', ''/source/b.jpg'' \<mapsto> regular 1 [],
             ''/source/c.jpg'' \<mapsto> regular 1 ''xyz'']"

definition one_active :: watcher where
  "one_active = \<lparr>workq = [], watchq = [], active = [(''/source/a.jpg'', 100)],
     timer = Some 0, timers = [\<lparr>interval = 5, tstatus = Pending\<rparr>]\<rparr>"

definition two_active :: watcher where
  "two_active = \<lparr>workq = [''/source/m.mov''], watchq = [],
     active = [(''/source/a.jpg'', 100), (''/source/b.jpg'', 120)],
     timer = Some 0, timers = [\<lparr>interval = 5, tstatus = Pending\<rparr>]\<rparr>"

definition at_rest :: "watcher \<Rightarrow> system" where
  "at_rest w = \<lparr>obj = w, pcs = (\<lambda>t. Idle), tracebacks = [], watcher_errors = 0\<rparr>"

definition torn_sweep :: "action list" where
  "torn_sweep =
     [Fire 0,
      Step (Timer_thread 0) 151, Step (Timer_thread 0) 151,
      Dequeue ''/source/c.jpg'' disk_a 151,
      Step (Timer_thread 0) 151,
      Step Watcher_thread 151, Step Watcher_thread 151, Step Watcher_thread 151,
      Step Watcher_thread 151, Step Watcher_thread 151, Step Watcher_thread 151,
      Step Watcher_thread 151, Step Watcher_thread 151, Step Watcher_thread 151,
      Step Watcher_thread 151, Step Watcher_thread 151, Step Watcher_thread 151]"

definition crossed_sweeps :: "action list" where
  "crossed_sweeps =
     [Dequeue ''/source/c.jpg'' disk_a 104, Fire 0,
      Step Watcher_thread 105, Step Watcher_thread 105, Step Watcher_thread 105,
      Step Watcher_thread 105, Step Watcher_thread 105, Step Watcher_thread 105,
      Step (Timer_thread 0) 105, Step (Timer_thread 0) 105, Step (Timer_thread 0) 105,
      Step (Timer_thread 0) 105, Step (Timer_thread 0) 105, Step (Timer_thread 0) 105,
      Step Watcher_thread 105, Step (Timer_thread 0) 105,
      Step Watcher_thread 105, Step Watcher_thread 105,
      Step (Timer_thread 0) 105, Step (Timer_thread 0) 105]"

section \<open>Properties of the event router\<close>

lemma dispatch_relevant:
  "is_relevant_file p \<Longrightarrow>
     dispatch (IN_CREATE p) q = q\<lparr>watchq := watchq q @ [p]\<rparr> \<and>
     dispatch (IN_CLOSE_WRITE p) q = q\<lparr>watchq := watchq q @ [p]\<rparr> \<and>
     dispatch (IN_MOVED_TO p) q = q\<lparr>workq := workq q @ [p]\<rparr>"
  by (simp add: process_IN_CREATE_def process_IN_CLOSE_WRITE_def process_IN_MOVED_TO_def)

lemma dispatch_irrelevant:
  "\<not> is_relevant_file (case ev of IN_CREATE p \<Rightarrow> p | IN_CLOSE_WRITE p \<Rightarrow> p | IN_MOVED_TO p \<Rightarrow> p)
     \<Longrightarrow> dispatch ev q = q"
  by (cases ev)
     (simp_all add: process_IN_CREATE_def process_IN_CLOSE_WRITE_def process_IN_MOVED_TO_def)

text \<open>
  Claim C9. The event router sends an event by its kind and by the extension of its
  path (the extension of \<open>os.path.splitext\<close>, lowered before it is looked up): a created
  or closed-after-write event with an accepted extension is put at the end of the watch
  queue and leaves the work queue alone; a moved-to event with an accepted extension is
  put at the end of the work queue and leaves the watch queue alone; an event whose
  extension is not accepted changes neither queue.
\<close>

theorem event_router_routes:
  "(lower (snd (splitext p)) \<in> set ACCEPTED_EXTENSIONS \<longrightarrow>
      dispatch (IN_CREATE p) q = q\<lparr>watchq := watchq q @ [p]\<rparr> \<and>
      dispatch (IN_CLOSE_WRITE p) q = q\<lparr>watchq := watchq q @ [p]\<rparr> \<and>
      dispatch (IN_MOVED_TO p) q = q\<lparr>workq := workq q @ [p]\<rparr>) \<and>
   (lower (snd (splitext p)) \<notin> set ACCEPTED_EXTENSIONS \<longrightarrow>
      dispatch (IN_CREATE p) q = q \<and>
      dispatch (IN_CLOSE_WRITE p) q = q \<and>
      dispatch (IN_MOVED_TO p) q = q)"
proof -
  have rel: "is_relevant_file p = (lower (snd (splitext p)) \<in> set ACCEPTED_EXTENSIONS)"
    by (simp add: is_relevant_file_def)
  show ?thesis
    using dispatch_relevant [of p q]
      dispatch_irrelevant [of "IN_CREATE p" q]
      dispatch_irrelevant [of "IN_CLOSE_WRITE p" q]
      dispatch_irrelevant [of "IN_MOVED_TO p" q]
    by (simp add: rel)
qed

theorem event_router_routes_witness:
  "lower (snd (splitext ''/source/IMG_001.JPG'')) \<in> set ACCEPTED_EXTENSIONS \<and>
   dispatch (IN_CLOSE_WRITE ''/source/IMG_001.JPG'') \<lparr>workq = [], watchq = []\<rparr>
     = \<lparr>workq = [], watchq = [''/source/IMG_001.JPG'']\<rparr> \<and>
   dispatch (IN_MOVED_TO ''/source/IMG_001.JPG'') \<lparr>workq = [], watchq = []\<rparr>
     = \<lparr>workq = [''/source/IMG_001.JPG''], watchq = []\<rparr> \<and>
   lower (snd (splitext ''/source/notes.txt'')) \<notin> set ACCEPTED_EXTENSIONS \<and>
   dispatch (IN_MOVED_TO ''/source/notes.txt'') \<lparr>workq = [], watchq = []\<rparr>
     = \<lparr>workq = [], watchq = []\<rparr>"
proof -
  have yes: "lower (snd (splitext ''/source/IMG_001.JPG'')) \<in> set ACCEPTED_EXTENSIONS"
    by code_simp
  have no: "lower (snd (splitext ''/source/notes.txt'')) \<notin> set ACCEPTED_EXTENSIONS"
    by code_simp
  show ?thesis
    using yes no
      event_router_routes [of "''/source/IMG_001.JPG''" "\<lparr>workq = [], watchq = []\<rparr>"]
      event_router_routes [of "''/source/notes.txt''" "\<lparr>workq = [], watchq = []\<rparr>"]
    by simp
qed

section \<open>Properties of the configuration\<close>

lemma Config_init_unset:
  "e ''DELETE_DUPLICATE'' = None \<Longrightarrow> snd (Config_init e) = Some TypeError"
  by (simp add: Config_init_def environ_get_def split: option.splits)

lemma Config_init_set:
  "e ''DELETE_DUPLICATE'' = Some v \<Longrightarrow> snd (Config_init e) = None"
  by (simp add: Config_init_def environ_get_def split: option.splits)

lemma main_startup_status:
  "snd (main_startup e) = (if snd (Config_init e) = None then Started else Aborted)"
  by (cases "Config_init e") (auto simp: main_startup_def split: option.splits)

text \<open>
  Claim C10. With \<open>DELETE_DUPLICATE\<close> unset the constructor of the configuration raises
  \<open>TypeError\<close> (the string \<open>'ENV DELETE_DUPLICATE: '\<close> is added to the default \<open>True\<close>)
  and the start-up ends in the handler of the main block; start-up gets past the
  constructor exactly when the variable is set; and a set variable is enabled exactly
  when its value is not the empty string, whatever the string says.
\<close>

theorem delete_duplicate_unset_aborts:
  "(e ''DELETE_DUPLICATE'' = None \<longrightarrow>
      snd (Config_init e) = Some TypeError \<and> snd (main_startup e) = Aborted) \<and>
   (snd (main_startup e) = Started \<longleftrightarrow> e ''DELETE_DUPLICATE'' \<noteq> None) \<and>
   (\<forall>v. e ''DELETE_DUPLICATE'' = Some v \<longrightarrow>
      UI_DELETE_DUPS e = PStr v \<and> (truthy (UI_DELETE_DUPS e) \<longleftrightarrow> v \<noteq> []))"
proof -
  have a: "e ''DELETE_DUPLICATE'' = None \<longrightarrow>
      snd (Config_init e) = Some TypeError \<and> snd (main_startup e) = Aborted"
    by (simp add: Config_init_unset main_startup_status)
  have b: "snd (main_startup e) = Started \<longleftrightarrow> e ''DELETE_DUPLICATE'' \<noteq> None"
  proof (cases "e ''DELETE_DUPLICATE''")
    case None
    then show ?thesis by (simp add: Config_init_unset main_startup_status)
  next
    case (Some v)
    then show ?thesis by (simp add: Config_init_set main_startup_status)
  qed
  have c: "\<forall>v. e ''DELETE_DUPLICATE'' = Some v \<longrightarrow>
      UI_DELETE_DUPS e = PStr v \<and> (truthy (UI_DELETE_DUPS e) \<longleftrightarrow> v \<noteq> [])"
    by (simp add: UI_DELETE_DUPS_def environ_get_def)
  from a b c show ?thesis by blast
qed

theorem delete_duplicate_unset_aborts_witness:
  "Map.empty ''DELETE_DUPLICATE'' = (None :: string option) \<and>
   main_startup Map.empty =
     ([Msg ''ENV FORMAT: %Y/%m/%Y%m%d_%H%M%S%%-uc.%%e'', Traceback TypeError], Aborted) \<and>
   [''DELETE_DUPLICATE'' \<mapsto> ''false''] ''DELETE_DUPLICATE'' = Some ''false'' \<and>
   snd (main_startup [''DELETE_DUPLICATE'' \<mapsto> ''false'']) = Started \<and>
   truthy (UI_DELETE_DUPS [''DELETE_DUPLICATE'' \<mapsto> ''false''])"
proof -
  have log: "fst (main_startup Map.empty) =
      [Msg ''ENV FORMAT: %Y/%m/%Y%m%d_%H%M%S%%-uc.%%e'', Traceback TypeError]"
    by (simp add: main_startup_def Config_init_def environ_get_def DEFAULT_DSTFMT_def)
  show ?thesis
    using log
      delete_duplicate_unset_aborts [of Map.empty]
      delete_duplicate_unset_aborts [of "[''DELETE_DUPLICATE'' \<mapsto> ''false'']"]
    by (simp add: prod_eq_iff)
qed

section \<open>Properties of the regular expression\<close>

lemma split_no_sep: "sep \<notin> set s \<Longrightarrow> split sep s = [s]"
  by (induction s) auto

lemma split_not_Nil: "split sep s \<noteq> []"
  by (induction s) (auto split: list.splits)

lemma hd_split: "hd (split sep s) = takeWhile (\<lambda>c. c \<noteq> sep) s"
  by (induction s) (auto split: list.splits simp: split_not_Nil)

lemma greedy_skip:
  "k (drop (Suc n) s) = None \<Longrightarrow> greedy k cap s (Suc n) = greedy k cap s n"
  by simp

lemma greedy_take:
  "k (drop (Suc n) s) = Some gs \<Longrightarrow>
   greedy k cap s (Suc n) = Some (if cap then take (Suc n) s # gs else gs)"
  by simp

lemma quote_not_space: "\<not> isspace (CHR 0x27)"
  by (simp add: isspace_def whitespace_def)

lemma takeWhile_nonspace_run:
  assumes "\<forall>c\<in>set u. \<not> isspace c" and "rest = [] \<or> isspace (hd rest)"
  shows "takeWhile (\<lambda>c. \<not> isspace c) (u @ CHR 0x27 # rest) = u @ [CHR 0x27]"
proof -
  have "takeWhile (\<lambda>c. \<not> isspace c) (CHR 0x27 # rest) = [CHR 0x27]"
    using assms(2) by (cases rest) (auto simp: quote_not_space)
  with assms(1) show ?thesis by simp
qed

text \<open>A group of non-blank characters closed by a quote, before a blank or the end.\<close>

lemma match_group:
  assumes u: "u \<noteq> []" "\<forall>c\<in>set u. \<not> isspace c"
    and rest: "rest = [] \<or> isspace (hd rest)"
    and k: "rx_match rs rest = Some gs"
  shows "rx_match (NonSpaces # Lit (CHR 0x27) # rs) (u @ CHR 0x27 # rest) = Some (u # gs)"
proof -
  let ?s = "u @ CHR 0x27 # rest"
  let ?k = "rx_match (Lit (CHR 0x27) # rs)"
  obtain n where n: "length u = Suc n" using u(1) by (cases u) auto
  have run: "length (takeWhile (\<lambda>c. \<not> isspace c) ?s) = Suc (Suc n)"
    using takeWhile_nonspace_run [OF u(2) rest] n by simp
  have over: "?k (drop (Suc (Suc n)) ?s) = None"
    using rest n by (cases rest) (auto simp: quote_not_space)
  have hit: "?k (drop (Suc n) ?s) = Some gs"
    using k n by simp
  have "rx_match (NonSpaces # Lit (CHR 0x27) # rs) ?s = greedy ?k True ?s (Suc (Suc n))"
    by (subst rx_match.simps) (simp only: rx.case run)
  also have "\<dots> = greedy ?k True ?s (Suc n)"
    using over by (rule greedy_skip)
  also have "\<dots> = Some (take (Suc n) ?s # gs)"
    using greedy_take [of ?k n ?s gs True] hit by (simp only: if_True)
  also have "take (Suc n) ?s = u" using n by simp
  finally show ?thesis .
qed

lemma match_one_space:
  assumes "isspace w" and "rest \<noteq> []" and "\<not> isspace (hd rest)"
  shows "rx_match (Spaces # rs) (w # rest) = rx_match rs rest"
proof -
  have "takeWhile isspace (w # rest) = [w]"
    using assms by (cases rest) auto
  then show ?thesis by (simp split: option.splits)
qed

lemma space_is_space: "isspace CHR '' ''"
  by (simp add: isspace_def whitespace_def)

lemma rename_re_match:
  assumes "src \<noteq> []" "\<forall>c\<in>set src. \<not> isspace c" "dst \<noteq> []" "\<forall>c\<in>set dst. \<not> isspace c"
  shows "rx_match rename_re (rename_line src dst) = Some [src, dst]"
proof -
  have g2: "rx_match [NonSpaces, Lit (CHR 0x27)] (dst @ [CHR 0x27]) = Some [dst]"
    using match_group [of dst "[]" "[]" "[]"] assms(3,4) by simp
  have tail: "rx_match [Spaces, Lit CHR ''-'', Lit CHR ''-'', Lit CHR ''>'', Spaces,
                 Lit (CHR 0x27), NonSpaces, Lit (CHR 0x27)]
               ('' --> '' @ [CHR 0x27] @ dst @ [CHR 0x27]) = Some [dst]"
  proof -
    have a: "rx_match [Spaces, Lit (CHR 0x27), NonSpaces, Lit (CHR 0x27)]
               (CHR '' '' # CHR 0x27 # dst @ [CHR 0x27]) = Some [dst]"
      using match_one_space [of "CHR '' ''" "CHR 0x27 # dst @ [CHR 0x27]"
              "[Lit (CHR 0x27), NonSpaces, Lit (CHR 0x27)]"] g2
      by (simp add: space_is_space quote_not_space)
    have "rx_match [Spaces, Lit CHR ''-'', Lit CHR ''-'', Lit CHR ''>'', Spaces,
                 Lit (CHR 0x27), NonSpaces, Lit (CHR 0x27)]
               (CHR '' '' # ''--> '' @ [CHR 0x27] @ dst @ [CHR 0x27])
          = rx_match [Lit CHR ''-'', Lit CHR ''-'', Lit CHR ''>'', Spaces,
                 Lit (CHR 0x27), NonSpaces, Lit (CHR 0x27)]
               (''--> '' @ [CHR 0x27] @ dst @ [CHR 0x27])"
      by (rule match_one_space) (simp_all add: space_is_space isspace_def whitespace_def)
    with a show ?thesis by simp
  qed
  have "rx_match (NonSpaces # Lit (CHR 0x27) #
           [Spaces, Lit CHR ''-'', Lit CHR ''-'', Lit CHR ''>'', Spaces,
            Lit (CHR 0x27), NonSpaces, Lit (CHR 0x27)])
          (src @ CHR 0x27 # ('' --> '' @ [CHR 0x27] @ dst @ [CHR 0x27])) = Some [src, dst]"
    using assms(1,2) tail by (intro match_group) (simp_all add: space_is_space)
  then show ?thesis by (simp add: rename_re_def rename_line_def)
qed

text \<open>What a group captures has no blank in it.\<close>

lemma greedy_Some:
  "greedy k cap s n = Some gs \<Longrightarrow>
   \<exists>m gs'. 1 \<le> m \<and> m \<le> n \<and> k (drop m s) = Some gs' \<and> gs = (if cap then take m s # gs' else gs')"
proof (induction n)
  case 0
  then show ?case by simp
next
  case (Suc n)
  show ?case
  proof (cases "k (drop (Suc n) s)")
    case None
    with Suc obtain m gs' where "1 \<le> m" "m \<le> n" "k (drop m s) = Some gs'"
      "gs = (if cap then take m s # gs' else gs')" by auto
    then show ?thesis by (intro exI [of _ m] exI [of _ gs']) simp
  next
    case (Some gs')
    with Suc.prems show ?thesis by (intro exI [of _ "Suc n"] exI [of _ gs']) auto
  qed
qed

lemma take_run_nonspace:
  "m \<le> length (takeWhile (\<lambda>c. \<not> isspace c) s) \<Longrightarrow> \<forall>c\<in>set (take m s). \<not> isspace c"
proof -
  assume m: "m \<le> length (takeWhile (\<lambda>c. \<not> isspace c) s)"
  have "take m s = take m (takeWhile (\<lambda>c. \<not> isspace c) s)"
    using m by (metis takeWhile_dropWhile_id take_append diff_is_0_eq take_0 append_Nil2)
  then have "set (take m s) \<subseteq> set (takeWhile (\<lambda>c. \<not> isspace c) s)"
    by (metis set_take_subset)
  then show ?thesis by (auto dest: set_takeWhileD)
qed

lemma rename_re_first_group:
  assumes "rx_match rename_re line = Some gs"
  shows "\<exists>g1 rest. gs = g1 # rest \<and> (\<forall>c\<in>set g1. \<not> isspace c)"
proof -
  obtain cs where line: "line = CHR 0x27 # cs"
    using assms by (cases line) (auto simp: rename_re_def split: if_splits)
  let ?k = "rx_match [Lit (CHR 0x27), Spaces, Lit CHR ''-'', Lit CHR ''-'', Lit CHR ''>'', Spaces,
            Lit (CHR 0x27), NonSpaces, Lit (CHR 0x27)]"
  have "greedy ?k True cs (length (takeWhile (\<lambda>c. \<not> isspace c) cs)) = Some gs"
    using assms line by (simp add: rename_re_def)
  from greedy_Some [OF this] obtain m gs' where
    m: "m \<le> length (takeWhile (\<lambda>c. \<not> isspace c) cs)" and gs: "gs = take m cs # gs'"
    by auto
  from take_run_nonspace [OF m] gs show ?thesis by blast
qed

section \<open>Properties of the duplicate check\<close>

lemma takeWhile_stops: "c \<in> set xs \<Longrightarrow> length (takeWhile (\<lambda>x. x \<noteq> c) xs) < length xs"
  by (induction xs) auto

lemma rfind_index:
  assumes "c \<in> set p"
  shows "0 \<le> rfind p c \<and> nat (rfind p c) < length p \<and> p ! nat (rfind p c) = c"
proof -
  let ?k = "length (takeWhile (\<lambda>x. x \<noteq> c) (rev p))"
  have k: "?k < length (rev p)"
    using assms by (intro takeWhile_stops) simp
  then have at: "rev p ! ?k = c"
    using nth_length_takeWhile [of "\<lambda>x. x \<noteq> c" "rev p"] by simp
  have r: "rfind p c = int (length p) - 1 - int ?k"
    using assms by (simp add: rfind_def)
  have pos: "0 \<le> rfind p c" using r k by simp
  have idx: "nat (rfind p c) = length p - Suc ?k" using r k by simp
  from k have "rev p ! ?k = p ! (length p - Suc ?k)"
    by (simp add: rev_nth)
  with at have "p ! (length p - Suc ?k) = c" by simp
  moreover have "length p - Suc ?k < length p" using k by simp
  ultimately show ?thesis using pos by (simp only: idx)
qed

lemma splitext_ext: "snd (splitext p) = [] \<or> (\<exists>r. snd (splitext p) = CHR ''.'' # r)"
proof (cases "CHR ''.'' \<in> set p")
  case True
  from rfind_index [OF True] have i: "nat (rfind p CHR ''.'') < length p"
    "p ! nat (rfind p CHR ''.'') = CHR ''.''" by simp_all
  then have "drop (nat (rfind p CHR ''.'')) p = CHR ''.'' # drop (Suc (nat (rfind p CHR ''.''))) p"
    by (metis Cons_nth_drop_Suc)
  then show ?thesis by (simp add: splitext_def Let_def)
next
  case False
  then have "rfind p CHR ''.'' = - 1" by (simp add: rfind_def)
  moreover have "- 1 \<le> rfind p CHR ''/''"
    using rfind_index [of "CHR ''/''" p] by (cases "CHR ''/'' \<in> set p") (auto simp: rfind_def)
  ultimately show ?thesis by (simp add: splitext_def Let_def)
qed

lemma primary_candidate_differs:
  assumes "CHR ''-'' \<in> set dstfile"
  shows "primary_candidate dstfile \<noteq> dstfile"
proof
  assume eq: "primary_candidate dstfile = dstfile"
  let ?P = "\<lambda>c. c \<noteq> CHR ''-''"
  have "takeWhile ?P dstfile @ snd (splitext dstfile) = takeWhile ?P dstfile @ dropWhile ?P dstfile"
    using eq by (simp only: primary_candidate_def takeWhile_dropWhile_id)
  then have ext: "snd (splitext dstfile) = dropWhile ?P dstfile"
    by (simp only: same_append_eq)
  have ne: "dropWhile ?P dstfile \<noteq> []" using assms by simp
  then have "hd (dropWhile ?P dstfile) = CHR ''-''"
    using hd_dropWhile [of ?P dstfile] by simp
  with ne ext splitext_ext [of dstfile] show False by auto
qed

lemma dupfile_is_primary:
  "hd (split CHR ''-'' dstfile) @ snd (splitext dstfile) = primary_candidate dstfile"
  by (simp add: primary_candidate_def hd_split)
lemma check_duplicate_off:
  "\<not> dedup_applies e dstfile \<Longrightarrow> check_duplicate e dstfile w = ([], w, None)"
  unfolding check_duplicate_def dedup_applies_def by (rule if_not_P)

lemma check_duplicate_on:
  assumes "dedup_applies e dstfile"
  shows "check_duplicate e dstfile w =
     (if os_path_exists (files w) (primary_candidate dstfile)
      then (case filecmp_cmp (files w) (cmp_cache w) dstfile (primary_candidate dstfile) of
              (Inl x, c) \<Rightarrow> ([checking_line dstfile], w\<lparr>cmp_cache := c\<rparr>, Some x)
            | (Inr same, c) \<Rightarrow>
               if same
               then (case os_remove (files w) dstfile of
                       Inl x \<Rightarrow> ([checking_line dstfile], w\<lparr>cmp_cache := c\<rparr>, Some x)
                     | Inr d' \<Rightarrow>
                        ([checking_line dstfile, removed_line dstfile],
                         \<lparr>files = d', cmp_cache = c\<rparr>, None))
               else ([checking_line dstfile], w\<lparr>cmp_cache := c\<rparr>, None))
      else ([checking_line dstfile], w, None))"
proof -
  have "check_duplicate e dstfile w =
     (let extension = snd (splitext dstfile);
          dupfile = hd (split CHR ''-'' dstfile) @ extension;
          checking = Msg (''Check if '' @ dstfile @ '' is a duplicate file of '' @ dupfile)
      in if os_path_exists (files w) dupfile
         then (case filecmp_cmp (files w) (cmp_cache w) dstfile dupfile of
                 (Inl x, c) \<Rightarrow> ([checking], w\<lparr>cmp_cache := c\<rparr>, Some x)
               | (Inr same, c) \<Rightarrow>
                  if same
                  then (case os_remove (files w) dstfile of
                          Inl x \<Rightarrow> ([checking], w\<lparr>cmp_cache := c\<rparr>, Some x)
                        | Inr d' \<Rightarrow>
                           ([checking,
                             Msg (''Removed '' @ dstfile @ '': a duplicate of '' @ dupfile)],
                            \<lparr>files = d', cmp_cache = c\<rparr>, None))
                  else ([checking], w\<lparr>cmp_cache := c\<rparr>, None))
         else ([checking], w, None))"
    using assms unfolding check_duplicate_def dedup_applies_def by (rule if_P)
  then show ?thesis
    by (simp only: Let_def dupfile_is_primary checking_line_def [symmetric]
          removed_line_def [symmetric])
qed

section \<open>Properties of \<open>Worker.process_file\<close>\<close>

lemma scan_lines_skip:
  "\<forall>dst. rx_match rename_re line \<noteq> Some [srcfile, dst] \<Longrightarrow>
   scan_lines e srcfile (line # rest) dstfile lg w = scan_lines e srcfile rest dstfile lg w"
  by (auto split: option.splits list.splits)

lemma scan_lines_hit:
  "rx_match rename_re line = Some [srcfile, g2] \<Longrightarrow> check_duplicate e g2 w = (lg', w', None) \<Longrightarrow>
   scan_lines e srcfile (line # rest) dstfile lg w =
     scan_lines e srcfile rest (Some g2) (lg @ Moved srcfile g2 # lg') w'"
  by simp

lemma scan_lines_raise:
  "rx_match rename_re line = Some [srcfile, g2] \<Longrightarrow> check_duplicate e g2 w = (lg', w', Some x) \<Longrightarrow>
   scan_lines e srcfile (line # rest) dstfile lg w =
     (Some g2, lg @ Moved srcfile g2 # lg', w', Some x)"
  by simp

lemma scan_lines_cases:
  obtains (skip) "\<forall>dst. rx_match rename_re line \<noteq> Some [srcfile, dst]"
  | (hit) g2 where "rx_match rename_re line = Some [srcfile, g2]"
  by blast

lemma scan_lines_none:
  "\<forall>line\<in>set lines. \<forall>dst. rx_match rename_re line \<noteq> Some [srcfile, dst] \<Longrightarrow>
   scan_lines e srcfile lines dstfile lg w = (dstfile, lg, w, None)"
proof (induction lines)
  case Nil
  then show ?case by simp
next
  case (Cons line lines)
  then have "\<forall>dst. rx_match rename_re line \<noteq> Some [srcfile, dst]" by simp
  from scan_lines_skip [OF this] Cons show ?case by simp
qed

lemma scan_lines_append:
  "scan_lines e srcfile (xs @ ys) dstfile lg w =
     (case scan_lines e srcfile xs dstfile lg w of
        (dst', lg', w', None) \<Rightarrow> scan_lines e srcfile ys dst' lg' w'
      | (dst', lg', w', Some x) \<Rightarrow> (dst', lg', w', Some x))"
proof (induction xs arbitrary: dstfile lg w)
  case Nil
  then show ?case by simp
next
  case (Cons line xs)
  show ?case
  proof (cases line srcfile rule: scan_lines_cases)
    case skip
    show ?thesis
      using Cons.IH by (simp only: append_Cons scan_lines_skip [OF skip])
  next
    case (hit g2)
    obtain lg' w' x where c: "check_duplicate e g2 w = (lg', w', x)"
      by (cases "check_duplicate e g2 w") auto
    show ?thesis
    proof (cases x)
      case None
      with c have c': "check_duplicate e g2 w = (lg', w', None)" by simp
      show ?thesis
        using Cons.IH by (simp only: append_Cons scan_lines_hit [OF hit c'])
    next
      case (Some y)
      with c have c': "check_duplicate e g2 w = (lg', w', Some y)" by simp
      show ?thesis
        by (simp only: append_Cons scan_lines_raise [OF hit c']) simp
    qed
  qed
qed

lemma scan_lines_log:
  "\<exists>more. fst (snd (scan_lines e srcfile lines dstfile lg w)) = lg @ more"
proof (induction lines arbitrary: dstfile lg w)
  case Nil
  then show ?case by simp
next
  case (Cons line lines)
  show ?case
  proof (cases line srcfile rule: scan_lines_cases)
    case skip
    show ?thesis using Cons.IH by (simp only: scan_lines_skip [OF skip])
  next
    case (hit g2)
    obtain lg' w' x where c: "check_duplicate e g2 w = (lg', w', x)"
      by (cases "check_duplicate e g2 w") auto
    show ?thesis
    proof (cases x)
      case None
      with c have c': "check_duplicate e g2 w = (lg', w', None)" by simp
      from Cons.IH [of "Some g2" "lg @ Moved srcfile g2 # lg'" w']
      obtain more where
        "fst (snd (scan_lines e srcfile lines (Some g2) (lg @ Moved srcfile g2 # lg') w'))
           = (lg @ Moved srcfile g2 # lg') @ more" by blast
      then show ?thesis
        by (simp only: scan_lines_hit [OF hit c']) simp
    next
      case (Some y)
      with c have c': "check_duplicate e g2 w = (lg', w', Some y)" by simp
      show ?thesis by (simp only: scan_lines_raise [OF hit c']) simp
    qed
  qed
qed

lemma scan_lines_dedup_off:
  assumes off: "\<forall>dst. \<not> dedup_applies e dst"
  shows "fst (snd (snd (scan_lines e srcfile lines dstfile lg w))) = w \<and>
         snd (snd (snd (scan_lines e srcfile lines dstfile lg w))) = None"
proof (induction lines arbitrary: dstfile lg)
  case Nil
  then show ?case by simp
next
  case (Cons line lines)
  show ?case
  proof (cases line srcfile rule: scan_lines_cases)
    case skip
    show ?thesis using Cons.IH by (simp only: scan_lines_skip [OF skip])
  next
    case (hit g2)
    have c: "check_duplicate e g2 w = ([], w, None)"
      using off by (simp add: check_duplicate_off)
    show ?thesis using Cons.IH by (simp only: scan_lines_hit [OF hit c])
  qed
qed

lemma join_srcdir_not_empty: "join UI_SRCDIR path \<noteq> []"
  by (simp add: join_def UI_SRCDIR_def SRCDIR_def)

lemma process_file_failed:
  "retval p \<noteq> 0 \<Longrightarrow>
   Worker_process_file e path (Inr p) w =
     ([Msg (''exiftool FAILED for '' @ path @ '': '' @
            str_join '' '' (split (CHR 0x0A) (stderr p)))], w, None)"
  by (simp add: Worker_process_file_def)

lemma process_file_scan:
  "retval p = 0 \<Longrightarrow>
   Worker_process_file e path (Inr p) w =
     (case scan_lines e (join UI_SRCDIR path) (split (CHR 0x0A) (stdout p)) None [] w of
        (dstfile, lg, w', Some x) \<Rightarrow> (lg, w', Some x)
      | (None, lg, w', None) \<Rightarrow> (lg @ [no_rename_line], w', None)
      | (Some dst, lg, w', None) \<Rightarrow> (lg, w', None))"
  unfolding no_rename_line_def by (simp add: Worker_process_file_def)

lemma process_file_no_line:
  assumes "retval p = 0"
    and "\<forall>line\<in>set (split (CHR 0x0A) (stdout p)).
           \<forall>dst. rx_match rename_re line \<noteq> Some [join UI_SRCDIR path, dst]"
  shows "Worker_process_file e path (Inr p) w = ([no_rename_line], w, None)"
  using assms by (simp add: process_file_scan scan_lines_none)

lemma blank_source_never_matches:
  assumes "\<exists>c\<in>set srcfile. isspace c"
  shows "rx_match rename_re line \<noteq> Some [srcfile, dst]"
proof
  assume "rx_match rename_re line = Some [srcfile, dst]"
  from rename_re_first_group [OF this] assms show False by auto
qed

lemma process_file_blank_source:
  assumes "retval p = 0" and "\<exists>c\<in>set (join UI_SRCDIR path). isspace c"
  shows "Worker_process_file e path (Inr p) w = ([no_rename_line], w, None)"
  using assms by (intro process_file_no_line) (simp_all add: blank_source_never_matches)

lemma process_file_world_off:
  assumes "\<not> (UI_DSTFMT e = PStr DEFAULT_DSTFMT \<and> truthy (UI_DELETE_DUPS e))"
  shows "fst (snd (Worker_process_file e path out w)) = w"
proof (cases out)
  case (Inl x)
  then show ?thesis by (simp add: Worker_process_file_def)
next
  case (Inr p)
  have off: "\<forall>dst. \<not> dedup_applies e dst" using assms by (auto simp: dedup_applies_def)
  show ?thesis
  proof (cases "retval p = 0")
    case True
    obtain a b c x where s: "scan_lines e (join UI_SRCDIR path) (split (CHR 0x0A) (stdout p)) None [] w = (a, b, c, x)"
      by (metis prod_cases4)
    with scan_lines_dedup_off [OF off, of "join UI_SRCDIR path" "split (CHR 0x0A) (stdout p)" None "[]" w]
    have "c = w" "x = None" by simp_all
    with s True Inr show ?thesis by (cases a) (simp_all add: process_file_scan)
  next
    case False
    with Inr show ?thesis by (simp add: process_file_failed)
  qed
qed

text \<open>The line is reached, its destination is captured, and the move is logged.\<close>

lemma process_file_captures:
  assumes ok: "retval p = 0"
    and lines: "split (CHR 0x0A) (stdout p) = pre @ rename_line (join UI_SRCDIR path) dst # post"
    and src: "\<forall>c\<in>set (join UI_SRCDIR path). \<not> isspace c"
    and dst: "dst \<noteq> []" "\<forall>c\<in>set dst. \<not> isspace c"
    and pre: "snd (snd (snd (scan_lines e (join UI_SRCDIR path) pre None [] w))) = None"
  shows "fst (scan_lines e (join UI_SRCDIR path) (pre @ [rename_line (join UI_SRCDIR path) dst]) None [] w)
           = Some dst \<and>
         Moved (join UI_SRCDIR path) dst \<in> set (fst (Worker_process_file e path (Inr p) w))"
proof -
  let ?src = "join UI_SRCDIR path"
  let ?line = "rename_line ?src dst"
  have m: "rx_match rename_re ?line = Some [?src, dst]"
    using join_srcdir_not_empty src dst by (rule rename_re_match)
  obtain dst0 lg0 w0 where p0: "scan_lines e ?src pre None [] w = (dst0, lg0, w0, None)"
    using pre by (metis prod.collapse)
  obtain lg' w' x where c: "check_duplicate e dst w0 = (lg', w', x)"
    by (cases "check_duplicate e dst w0") auto
  have one: "scan_lines e ?src [?line] dst0 lg0 w0 = (Some dst, lg0 @ [Moved ?src dst] @ lg', w', x)"
  proof (cases x)
    case None
    with c have c': "check_duplicate e dst w0 = (lg', w', None)" by simp
    show ?thesis using None by (simp only: scan_lines_hit [OF m c']) simp
  next
    case (Some y)
    with c have c': "check_duplicate e dst w0 = (lg', w', Some y)" by simp
    show ?thesis using Some by (simp only: scan_lines_raise [OF m c']) simp
  qed
  have upto: "scan_lines e ?src (pre @ [?line]) None [] w
                = (Some dst, lg0 @ [Moved ?src dst] @ lg', w', x)"
    using p0 one by (simp only: scan_lines_append) simp
  have "\<exists>more. fst (snd (scan_lines e ?src (pre @ ?line # post) None [] w))
          = (lg0 @ [Moved ?src dst] @ lg') @ more"
  proof (cases x)
    case None
    have "scan_lines e ?src ((pre @ [?line]) @ post) None [] w
            = scan_lines e ?src post (Some dst) (lg0 @ [Moved ?src dst] @ lg') w'"
      using upto None by (simp only: scan_lines_append [of e ?src "pre @ [?line]"]) simp
    then show ?thesis
      using scan_lines_log [of e ?src post "Some dst" "lg0 @ [Moved ?src dst] @ lg'" w'] by simp
  next
    case (Some y)
    have "scan_lines e ?src ((pre @ [?line]) @ post) None [] w
            = (Some dst, lg0 @ [Moved ?src dst] @ lg', w', x)"
      using upto Some by (simp only: scan_lines_append [of e ?src "pre @ [?line]"]) simp
    then show ?thesis by simp
  qed
  then obtain more where
    lg: "fst (snd (scan_lines e ?src (split (CHR 0x0A) (stdout p)) None [] w))
           = (lg0 @ [Moved ?src dst] @ lg') @ more"
    using lines by auto
  obtain a b cc y where s: "scan_lines e ?src (split (CHR 0x0A) (stdout p)) None [] w = (a, b, cc, y)"
    by (metis prod_cases4)
  with lg have b: "b = (lg0 @ [Moved ?src dst] @ lg') @ more" by simp
  have "Moved ?src dst \<in> set (fst (Worker_process_file e path (Inr p) w))"
    using s b ok by (cases a; cases y) (simp_all add: process_file_scan)
  with upto show ?thesis by simp
qed

section \<open>The thread loop\<close>

lemma run_loop_status:
  "n \<le> 5 \<Longrightarrow>
   (status (run_loop role proc n items s lg) = Exited) =
     (5 \<le> n + count_list (raised proc items s) True)"
proof (induction items arbitrary: n s lg)
  case Nil
  then show ?case by simp
next
  case (Cons item items)
  show ?case
  proof (cases "n < 5")
    case True
    obtain lg' s' x where p: "proc item s = (lg', s', x)"
      by (cases "proc item s") auto
    show ?thesis
    proof (cases x)
      case None
      with True p Cons.IH [of n s' "lg @ lg'"] show ?thesis by simp
    next
      case (Some y)
      with True p Cons.IH [of "n + 1" s' "lg @ lg' @ [Traceback y]"] show ?thesis by simp
    qed
  next
    case False
    with Cons.prems show ?thesis by simp
  qed
qed

lemma run_loop_errorCount:
  "n \<le> 5 \<Longrightarrow>
   errorCount (run_loop role proc n items s lg) = min 5 (n + count_list (raised proc items s) True)"
proof (induction items arbitrary: n s lg)
  case Nil
  then show ?case by simp
next
  case (Cons item items)
  show ?case
  proof (cases "n < 5")
    case True
    obtain lg' s' x where p: "proc item s = (lg', s', x)"
      by (cases "proc item s") auto
    show ?thesis
    proof (cases x)
      case None
      with True p Cons.IH [of n s' "lg @ lg'"] show ?thesis by simp
    next
      case (Some y)
      with True p Cons.IH [of "n + 1" s' "lg @ lg' @ [Traceback y]"] show ?thesis by simp
    qed
  next
    case False
    with Cons.prems show ?thesis by simp
  qed
qed

lemma run_loop_exit_line:
  "status (run_loop role proc n items s lg) = Exited \<Longrightarrow>
   last (logged (run_loop role proc n items s lg)) = exit_line role"
proof (induction items arbitrary: n s lg)
  case Nil
  then show ?case by (simp add: exit_line_def split: if_splits)
next
  case (Cons item items)
  show ?case
  proof (cases "n < 5")
    case True
    obtain lg' s' x where p: "proc item s = (lg', s', x)"
      by (cases "proc item s") auto
    show ?thesis
    proof (cases x)
      case None
      with True p Cons.prems Cons.IH [of n s' "lg @ lg'"] show ?thesis by simp
    next
      case (Some y)
      with True p Cons.prems Cons.IH [of "n + 1" s' "lg @ lg' @ [Traceback y]"] show ?thesis by simp
    qed
  next
    case False
    then show ?thesis by (simp add: exit_line_def)
  qed
qed

lemma length_raised: "length (raised proc items s) = length items"
  by (induction items arbitrary: s) (auto split: prod.splits)

text \<open>
  The consumed prefix. The unread items are a suffix of the queue; the state is the one the
  consumed items leave; and a thread that exits does so right after an item that raised,
  the one that brought the count to five.
\<close>

lemma run_loop_unread:
  "n \<le> 5 \<Longrightarrow>
   \<exists>k\<le>length items.
     unread (run_loop role proc n items s lg) = drop k items \<and>
     state (run_loop role proc n items s lg) = state_after proc (take k items) s \<and>
     errorCount (run_loop role proc n items s lg) = n + count_list (raised proc (take k items) s) True \<and>
     (status (run_loop role proc n items s lg) = Waiting \<longrightarrow>
        k = length items \<and> errorCount (run_loop role proc n items s lg) < 5) \<and>
     (status (run_loop role proc n items s lg) = Exited \<longrightarrow>
        errorCount (run_loop role proc n items s lg) = 5 \<and>
        (if n < 5 then 0 < k \<and> last (raised proc (take k items) s) else k = 0))"
proof (induction items arbitrary: n s lg)
  case Nil
  then show ?case by simp
next
  case (Cons item items)
  show ?case
  proof (cases "n < 5")
    case True
    obtain lg' s' x where p: "proc item s = (lg', s', x)"
      by (cases "proc item s") auto
    show ?thesis
    proof (cases x)
      case None
      let ?r = "run_loop role proc n items s' (lg @ lg')"
      from Cons.IH [of n s' "lg @ lg'"] Cons.prems obtain k where
        k: "k \<le> length items" "unread ?r = drop k items"
          "state ?r = state_after proc (take k items) s'"
          "errorCount ?r = n + count_list (raised proc (take k items) s') True"
          "status ?r = Waiting \<longrightarrow> k = length items \<and> errorCount ?r < 5"
          "status ?r = Exited \<longrightarrow> errorCount ?r = 5 \<and>
             (if n < 5 then 0 < k \<and> last (raised proc (take k items) s') else k = 0)"
        by blast
      have eq: "run_loop role proc n (item # items) s lg = ?r"
        using True p None by simp
      have ne: "status ?r = Exited \<Longrightarrow> raised proc (take k items) s' \<noteq> []"
        using k(1,6) True length_raised [of proc "take k items" s'] by auto
      show ?thesis
        unfolding eq using k True p None ne
        by (intro exI [of _ "Suc k"]) auto
    next
      case (Some y)
      let ?r = "run_loop role proc (n + 1) items s' (lg @ lg' @ [Traceback y])"
      from Cons.IH [of "n + 1" s' "lg @ lg' @ [Traceback y]"] True obtain k where
        k: "k \<le> length items" "unread ?r = drop k items"
          "state ?r = state_after proc (take k items) s'"
          "errorCount ?r = n + 1 + count_list (raised proc (take k items) s') True"
          "status ?r = Waiting \<longrightarrow> k = length items \<and> errorCount ?r < 5"
          "status ?r = Exited \<longrightarrow> errorCount ?r = 5 \<and>
             (if n + 1 < 5 then 0 < k \<and> last (raised proc (take k items) s') else k = 0)"
        by auto
      have eq: "run_loop role proc n (item # items) s lg = ?r"
        using True p Some by simp
      have ne: "status ?r = Exited \<Longrightarrow> n + 1 < 5 \<Longrightarrow> raised proc (take k items) s' \<noteq> []"
        using k(1,6) length_raised [of proc "take k items" s'] by auto
      have la: "status ?r = Exited \<Longrightarrow> last (True # raised proc (take k items) s')"
        using k(6) ne by (cases "n + 1 < 5") simp_all
      show ?thesis
        unfolding eq using k True p Some la
        by (intro exI [of _ "Suc k"]) auto
    qed
  next
    case False
    with Cons.prems show ?thesis by (intro exI [of _ 0]) simp
  qed
qed

lemma bad_step: "Worker_step e bad_item s = ([], s\<lparr>files := Map.empty\<rparr>, Some OSError)"
  by (simp add: Worker_step_def bad_item_def Worker_process_file_def)

lemma nonblank_a: "\<forall>c\<in>set ''/source/a.jpg''. \<not> isspace c"
  by (simp add: isspace_def whitespace_def)

lemma nonblank_b: "\<forall>c\<in>set ''/source/b.jpg''. \<not> isspace c"
  by (simp add: isspace_def whitespace_def)

lemma nonblank_primary: "primary_dst \<noteq> [] \<and> (\<forall>c\<in>set primary_dst. \<not> isspace c)"
  by (simp add: primary_dst_def isspace_def whitespace_def)

lemma nonblank_marked: "marked_dst \<noteq> [] \<and> (\<forall>c\<in>set marked_dst. \<not> isspace c)"
  by (simp add: marked_dst_def isspace_def whitespace_def)

lemma join_abs: "join UI_SRCDIR (CHR ''/'' # p) = CHR ''/'' # p"
  by (simp add: join_def)

lemma good_match:
  "rx_match rename_re (rename_line ''/source/a.jpg'' primary_dst) = Some [''/source/a.jpg'', primary_dst]"
  using nonblank_a nonblank_primary by (intro rename_re_match) simp_all

lemma primary_no_marker: "\<not> dedup_applies e primary_dst"
  by (simp add: dedup_applies_def primary_dst_def)

lemma good_step:
  "Worker_step e good_item s =
     ([Moved ''/source/a.jpg'' primary_dst],
      s\<lparr>files := [primary_dst \<mapsto> regular 1 ''abc'']\<rparr>, None)"
proof -
  let ?w = "s\<lparr>files := [primary_dst \<mapsto> regular 1 ''abc'']\<rparr>"
  have nl: "CHR 0x0A \<notin> set (rename_line ''/source/a.jpg'' primary_dst)"
    by (simp add: rename_line_def primary_dst_def)
  have c: "check_duplicate e primary_dst ?w = ([], ?w, None)"
    using primary_no_marker by (rule check_duplicate_off)
  have "scan_lines e ''/source/a.jpg'' [rename_line ''/source/a.jpg'' primary_dst] None [] ?w
        = (Some primary_dst, [Moved ''/source/a.jpg'' primary_dst], ?w, None)"
    by (simp only: scan_lines_hit [OF good_match c]) simp
  then show ?thesis
    by (simp add: Worker_step_def good_item_def process_file_scan split_no_sep [OF nl] join_abs)
qed

text \<open>
  Claim C2, as the code has it. The loop of a Worker or Watcher thread counts every
  exception of its thread and never resets the count: the thread exits exactly when five
  items in total have raised, consecutive or not. It then logs
  \<open>'Too many errors, <role> thread exiting'\<close> last, and it has consumed the queue up to
  the item whose exception was the fifth and nothing after it: the last item consumed
  raised, five of the consumed items raised, the items after it are unread and the state
  is the one the consumed items left. With fewer than five failures in the whole queue the
  thread consumes all of it and waits. \<open>Worker_run\<close> and \<open>Watcher_run\<close> are \<open>run\<close> with
  their role and their \<open>process_file\<close>.
\<close>

theorem thread_exits_after_five_errors_in_total:
  "(status (run role proc items s) = Exited \<longleftrightarrow> 5 \<le> count_list (raised proc items s) True) \<and>
   errorCount (run role proc items s) = min 5 (count_list (raised proc items s) True) \<and>
   (status (run role proc items s) = Exited \<longrightarrow>
      last (logged (run role proc items s)) = exit_line role) \<and>
   (\<exists>k\<le>length items.
      unread (run role proc items s) = drop k items \<and>
      state (run role proc items s) = state_after proc (take k items) s \<and>
      errorCount (run role proc items s) = count_list (raised proc (take k items) s) True \<and>
      (status (run role proc items s) = Waiting \<longrightarrow> k = length items) \<and>
      (status (run role proc items s) = Exited \<longrightarrow>
         0 < k \<and> last (raised proc (take k items) s) \<and>
         count_list (raised proc (take k items) s) True = 5))"
proof -
  have a: "status (run role proc items s) = Exited \<longleftrightarrow> 5 \<le> count_list (raised proc items s) True"
    using run_loop_status [of 0 role proc items s "[]"] by (simp add: run_def)
  have b: "errorCount (run role proc items s) = min 5 (count_list (raised proc items s) True)"
    using run_loop_errorCount [of 0 role proc items s "[]"] by (simp add: run_def)
  have c: "status (run role proc items s) = Exited \<longrightarrow>
      last (logged (run role proc items s)) = exit_line role"
    using run_loop_exit_line [of role proc 0 items s "[]"] by (simp add: run_def)
  have d: "\<exists>k\<le>length items.
      unread (run role proc items s) = drop k items \<and>
      state (run role proc items s) = state_after proc (take k items) s \<and>
      errorCount (run role proc items s) = count_list (raised proc (take k items) s) True \<and>
      (status (run role proc items s) = Waiting \<longrightarrow> k = length items) \<and>
      (status (run role proc items s) = Exited \<longrightarrow>
         0 < k \<and> last (raised proc (take k items) s) \<and>
         count_list (raised proc (take k items) s) True = 5)"
    using run_loop_unread [of 0 items role proc s "[]"] unfolding run_def by force
  from a b c d show ?thesis by (intro conjI)
qed

lemma raised_bad5:
  "raised (Worker_step e) [bad_item, bad_item, bad_item, bad_item, bad_item, good_item] s
     = [True, True, True, True, True, False]"
  by (simp add: bad_step good_step)

theorem thread_exits_after_five_errors_in_total_witness:
  "5 \<le> count_list (raised (Worker_step env_default)
           [bad_item, bad_item, bad_item, bad_item, bad_item, good_item] (fresh Map.empty)) True \<and>
   status (run ''Worker'' (Worker_step env_default)
           [bad_item, bad_item, bad_item, bad_item, bad_item, good_item] (fresh Map.empty)) = Exited \<and>
   last (logged (run ''Worker'' (Worker_step env_default)
           [bad_item, bad_item, bad_item, bad_item, bad_item, good_item] (fresh Map.empty)))
     = Msg ''Too many errors, Worker thread exiting'' \<and>
   status (run ''Worker'' (Worker_step env_default) [bad_item, good_item] (fresh Map.empty)) = Waiting \<and>
   unread (run ''Worker'' (Worker_step env_default) [bad_item, good_item] (fresh Map.empty)) = []"
proof -
  have r2: "raised (Worker_step env_default) [bad_item, good_item] (fresh Map.empty) = [True, False]"
    by (simp add: bad_step good_step)
  have w: "status (run ''Worker'' (Worker_step env_default) [bad_item, good_item] (fresh Map.empty)) \<noteq> Exited"
    using thread_exits_after_five_errors_in_total
      [of "''Worker''" "Worker_step env_default" "[bad_item, good_item]" "fresh Map.empty"] r2
    by simp
  then have w': "status (run ''Worker'' (Worker_step env_default) [bad_item, good_item] (fresh Map.empty)) = Waiting"
    by (cases "status (run ''Worker'' (Worker_step env_default) [bad_item, good_item] (fresh Map.empty))") simp_all
  have u: "unread (run ''Worker'' (Worker_step env_default) [bad_item, good_item] (fresh Map.empty)) = []"
    using w' thread_exits_after_five_errors_in_total
        [of "''Worker''" "Worker_step env_default" "[bad_item, good_item]" "fresh Map.empty"]
    by auto
  show ?thesis
    using w' u raised_bad5 [of env_default "fresh Map.empty"]
      thread_exits_after_five_errors_in_total
        [of "''Worker''" "Worker_step env_default"
           "[bad_item, bad_item, bad_item, bad_item, bad_item, good_item]" "fresh Map.empty"]
    by (simp add: exit_line_def)
qed

text \<open>
  Claim C2 as stated fails: five failures, each followed by an item that is processed
  without an exception, end the Worker thread, and the last item stays unread.
\<close>

theorem nonconsecutive_errors_exit_counterexample:
  "raised (Worker_step env_default)
     [bad_item, good_item, bad_item, good_item, bad_item, good_item, bad_item, good_item,
      bad_item, good_item] (fresh Map.empty)
     = [True, False, True, False, True, False, True, False, True, False] \<and>
   status (Worker_run env_default
     [bad_item, good_item, bad_item, good_item, bad_item, good_item, bad_item, good_item,
      bad_item, good_item] (fresh Map.empty)) = Exited \<and>
   unread (Worker_run env_default
     [bad_item, good_item, bad_item, good_item, bad_item, good_item, bad_item, good_item,
      bad_item, good_item] (fresh Map.empty)) = [good_item] \<and>
   last (logged (Worker_run env_default
     [bad_item, good_item, bad_item, good_item, bad_item, good_item, bad_item, good_item,
      bad_item, good_item] (fresh Map.empty))) = Msg ''Too many errors, Worker thread exiting''"
  by (simp add: Worker_run_def run_def bad_step good_step)


section \<open>Per-item failures and the rename line\<close>

lemma split_at_sep: "sep \<notin> set a \<Longrightarrow> split sep (a @ sep # b) = a # split sep b"
  by (induction a) (auto split: list.splits)



lemma verbose_lines:
  "split (CHR 0x0A) verbose_out =
     [''======== /source/a.jpg''] @ rename_line ''/source/a.jpg'' primary_dst #
     [''    1 image files updated'']"
proof -
  have a: "CHR 0x0A \<notin> set ''======== /source/a.jpg''" by simp
  have b: "CHR 0x0A \<notin> set (rename_line ''/source/a.jpg'' primary_dst)"
    by (simp add: rename_line_def primary_dst_def)
  have c: "CHR 0x0A \<notin> set ''    1 image files updated''" by simp
  have "split (CHR 0x0A) verbose_out =
      ''======== /source/a.jpg'' # split (CHR 0x0A)
        (rename_line ''/source/a.jpg'' primary_dst @ CHR 0x0A # ''    1 image files updated'')"
    unfolding verbose_out_def using split_at_sep [OF a] by simp
  also have "split (CHR 0x0A)
        (rename_line ''/source/a.jpg'' primary_dst @ CHR 0x0A # ''    1 image files updated'')
      = rename_line ''/source/a.jpg'' primary_dst # split (CHR 0x0A) ''    1 image files updated''"
    using b by (rule split_at_sep)
  also have "split (CHR 0x0A) ''    1 image files updated'' = [''    1 image files updated'']"
    using c by (rule split_no_sep)
  finally show ?thesis by simp
qed

lemma header_skipped:
  "scan_lines e src [''======== /source/a.jpg''] None [] w = (None, [], w, None)"
  by (simp add: rename_re_def)

text \<open>
  A run that exits 0 and prints, between two other lines, the line of the interface for
  the invoked path, neither path holding a blank: the destination is captured and the
  move is logged.
\<close>

lemma verbose_run_captured:
  "Worker_process_file env_default ''/source/a.jpg''
     (Inr \<lparr>retval = 0, stdout = verbose_out, stderr = []\<rparr>) (fresh twin_disk)
   = ([Moved ''/source/a.jpg'' primary_dst], fresh twin_disk, None)"
proof -
  have c: "check_duplicate env_default primary_dst (fresh twin_disk) = ([], fresh twin_disk, None)"
    using primary_no_marker by (rule check_duplicate_off)
  have "scan_lines env_default ''/source/a.jpg'' (split (CHR 0x0A) verbose_out) None []
          (fresh twin_disk)
        = scan_lines env_default ''/source/a.jpg''
            (rename_line ''/source/a.jpg'' primary_dst # [''    1 image files updated''])
            None [] (fresh twin_disk)"
    by (simp only: verbose_lines append_Cons append_Nil) (simp add: rename_re_def)
  also have "\<dots> = scan_lines env_default ''/source/a.jpg'' [''    1 image files updated'']
            (Some primary_dst) ([] @ Moved ''/source/a.jpg'' primary_dst # []) (fresh twin_disk)"
    by (rule scan_lines_hit [OF good_match c])
  also have "\<dots> = (Some primary_dst, [Moved ''/source/a.jpg'' primary_dst], fresh twin_disk, None)"
    by (simp add: rename_re_def)
  finally show ?thesis
    by (simp add: process_file_scan join_abs)
qed

lemma spaced_has_blank: "\<exists>c\<in>set (join UI_SRCDIR spaced_src). isspace c"
  by (simp add: spaced_src_def join_def isspace_def whitespace_def)

text \<open>
  Claim C3. The code does not do what the claim says for a path with a blank in it. The
  path \<open>/source/my photo.jpg\<close> is accepted by the router and handed to the rename program,
  which exits 0 and prints the line of the interface, \<open>'<source>' --> '<destination>'\<close>,
  with the invoked path as its source. The groups \<open>\S+\<close> of \<open>rename_re\<close> (line 74) take
  no blank, so the line does not match: no destination is captured, no move is logged,
  the duplicate check is skipped, and the only line logged says that no rename information
  was found.
\<close>

theorem blank_in_path_not_captured:
  "is_relevant_file spaced_src \<and>
   retval spaced_run = 0 \<and>
   join UI_SRCDIR spaced_src = spaced_src \<and>
   split (CHR 0x0A) (stdout spaced_run) = [rename_line spaced_src primary_dst] \<and>
   rx_match rename_re (rename_line spaced_src primary_dst) = None \<and>
   Worker_process_file env_default spaced_src (Inr spaced_run) (fresh twin_disk) =
     ([Msg ''exiftool succeeded, but no file rename information found''],
      fresh twin_disk, None)"
proof -
  have a: "is_relevant_file spaced_src"
    by (simp add: is_relevant_file_def spaced_src_def splitext_def rfind_def lower_def
          lower_char_def upper_chars_def lower_chars_def ACCEPTED_EXTENSIONS_def)
  have r: "retval spaced_run = 0" by (simp add: spaced_run_def)
  have j: "join UI_SRCDIR spaced_src = spaced_src" by (simp add: join_def spaced_src_def)
  have nl: "CHR 0x0A \<notin> set (rename_line spaced_src primary_dst)"
    by (simp add: rename_line_def primary_dst_def spaced_src_def)
  have l: "split (CHR 0x0A) (stdout spaced_run) = [rename_line spaced_src primary_dst]"
    by (simp add: spaced_run_def split_no_sep [OF nl])
  have m: "rx_match rename_re (rename_line spaced_src primary_dst) = None"
    by (simp add: rename_re_def rename_line_def spaced_src_def primary_dst_def
          isspace_def whitespace_def)
  have w: "Worker_process_file env_default spaced_src (Inr spaced_run) (fresh twin_disk) =
     ([no_rename_line], fresh twin_disk, None)"
    using r spaced_has_blank by (rule process_file_blank_source)
  from a r j l m w show ?thesis unfolding no_rename_line_def by (intro conjI)
qed

section \<open>The duplicate-elimination policy\<close>

lemma env_default_applies: "dedup_applies env_default marked_dst"
  by (simp add: dedup_applies_def env_default_def UI_DSTFMT_def UI_DELETE_DUPS_def
        environ_get_def marked_dst_def)

lemma env_false_applies: "dedup_applies env_false marked_dst"
  by (simp add: dedup_applies_def env_false_def UI_DSTFMT_def UI_DELETE_DUPS_def
        environ_get_def marked_dst_def)

lemma primary_of_marked: "primary_candidate marked_dst = primary_dst"
  by (simp add: primary_candidate_def marked_dst_def primary_dst_def splitext_def rfind_def)

lemma marked_not_primary: "marked_dst \<noteq> primary_dst"
  by (simp add: marked_dst_def primary_dst_def)

lemma checking_marked:
  "checking_line marked_dst =
     Msg ''Check if /dest/2024/03/20240315_120000-1.jpg is a duplicate file of /dest/2024/03/20240315_120000.jpg''"
  by (simp add: checking_line_def primary_of_marked) (simp add: marked_dst_def primary_dst_def)

lemma removed_marked:
  "removed_line marked_dst =
     Msg ''Removed /dest/2024/03/20240315_120000-1.jpg: a duplicate of /dest/2024/03/20240315_120000.jpg''"
  by (simp add: removed_line_def primary_of_marked) (simp add: marked_dst_def primary_dst_def)

text \<open>
  A run that exits 0 and prints the one line that reports the rename of the invoked path to
  the marked destination: the move is logged and the duplicate check of the marked
  destination decides the rest.
\<close>

lemma marked_run_step:
  assumes "\<forall>c\<in>set (CHR ''/'' # p). \<not> isspace c"
  shows "Worker_process_file e (CHR ''/'' # p) (Inr (marked_run (CHR ''/'' # p))) w =
     (case check_duplicate e marked_dst w of
        (lg', w', x) \<Rightarrow> (Moved (CHR ''/'' # p) marked_dst # lg', w', x))"
proof -
  let ?src = "CHR ''/'' # p"
  have "isspace (CHR 0x0A)" by (simp add: isspace_def whitespace_def)
  with assms have "CHR 0x0A \<notin> set ?src" by blast
  then have nl: "CHR 0x0A \<notin> set (rename_line ?src marked_dst)"
    by (simp add: rename_line_def marked_dst_def)
  have m: "rx_match rename_re (rename_line ?src marked_dst) = Some [?src, marked_dst]"
    using assms nonblank_marked by (intro rename_re_match) simp_all
  obtain lg' w' x where c: "check_duplicate e marked_dst w = (lg', w', x)"
    by (cases "check_duplicate e marked_dst w") auto
  have s: "scan_lines e ?src [rename_line ?src marked_dst] None [] w
             = (Some marked_dst, Moved ?src marked_dst # lg', w', x)"
  proof (cases x)
    case None
    with c have c': "check_duplicate e marked_dst w = (lg', w', None)" by simp
    show ?thesis using None by (simp only: scan_lines_hit [OF m c']) simp
  next
    case (Some y)
    with c have c': "check_duplicate e marked_dst w = (lg', w', Some y)" by simp
    show ?thesis using Some by (simp only: scan_lines_raise [OF m c']) simp
  qed
  have "Worker_process_file e ?src (Inr (marked_run ?src)) w = (Moved ?src marked_dst # lg', w', x)"
    using s by (cases x) (simp_all add: process_file_scan marked_run_def split_no_sep [OF nl] join_abs)
  with c show ?thesis by simp
qed

text \<open>
  The duplicate check of the marked destination on the two disks of the examples, with
  nothing in the cache of \<open>filecmp\<close> and with the answer of an earlier comparison in it.
\<close>

lemma twin_check:
  assumes "dedup_applies e marked_dst"
  shows "check_duplicate e marked_dst \<lparr>files = twin_disk, cmp_cache = []\<rparr> =
     ([checking_line marked_dst, removed_line marked_dst],
      \<lparr>files = twin_disk(marked_dst := None), cmp_cache = [(twin_key, True)]\<rparr>, None)"
  by (simp add: check_duplicate_on [OF assms] primary_of_marked os_path_exists_def
        filecmp_cmp_def os_stat_def os_remove_def sig_of_def st_size_def do_cmp_def
        twin_disk_def regular_def marked_not_primary marked_not_primary [symmetric] twin_key_def Let_def)

lemma other_check_fresh:
  assumes "dedup_applies e marked_dst"
  shows "check_duplicate e marked_dst \<lparr>files = other_disk, cmp_cache = []\<rparr> =
     ([checking_line marked_dst],
      \<lparr>files = other_disk, cmp_cache = [(twin_key, False)]\<rparr>, None)"
  by (simp add: check_duplicate_on [OF assms] primary_of_marked os_path_exists_def
        filecmp_cmp_def os_stat_def os_remove_def sig_of_def st_size_def do_cmp_def
        other_disk_def regular_def marked_not_primary marked_not_primary [symmetric] twin_key_def Let_def)

lemma other_check_stale:
  assumes "dedup_applies e marked_dst"
  shows "check_duplicate e marked_dst \<lparr>files = other_disk, cmp_cache = [(twin_key, True)]\<rparr> =
     ([checking_line marked_dst, removed_line marked_dst],
      \<lparr>files = other_disk(marked_dst := None), cmp_cache = [(twin_key, True)]\<rparr>, None)"
  by (simp add: check_duplicate_on [OF assms] primary_of_marked os_path_exists_def
        filecmp_cmp_def os_stat_def os_remove_def sig_of_def st_size_def do_cmp_def
        other_disk_def regular_def marked_not_primary marked_not_primary [symmetric] twin_key_def Let_def)

text \<open>
  Claim C1. The code does not do what the claim says when duplicate deletion is switched
  off by \<open>DELETE_DUPLICATE=false\<close>. \<open>UI_DELETE_DUPS\<close> (line 46) returns the string of the
  environment as it is, and line 105 tests its truth value, which is true of every string
  but the empty one. With the default format, a marked destination and a primary of the
  same bytes, the check is made and the just-renamed file is removed.
\<close>

theorem deletion_switched_off_still_deletes:
  "UI_DELETE_DUPS env_false = PStr ''false'' \<and>
   UI_DSTFMT env_false = PStr DEFAULT_DSTFMT \<and>
   twin_disk marked_dst = Some (regular 2 ''abc'') \<and>
   Worker_process_file env_false ''/source/a.jpg'' (Inr (marked_run ''/source/a.jpg''))
       \<lparr>files = twin_disk, cmp_cache = []\<rparr> =
     ([Moved ''/source/a.jpg'' marked_dst,
       Msg ''Check if /dest/2024/03/20240315_120000-1.jpg is a duplicate file of /dest/2024/03/20240315_120000.jpg'',
       Msg ''Removed /dest/2024/03/20240315_120000-1.jpg: a duplicate of /dest/2024/03/20240315_120000.jpg''],
      \<lparr>files = twin_disk(marked_dst := None), cmp_cache = [(twin_key, True)]\<rparr>, None) \<and>
   (twin_disk(marked_dst := None)) marked_dst = None"
proof -
  have a: "UI_DELETE_DUPS env_false = PStr ''false''"
    by (simp add: UI_DELETE_DUPS_def env_false_def environ_get_def)
  have b: "UI_DSTFMT env_false = PStr DEFAULT_DSTFMT"
    by (simp add: UI_DSTFMT_def env_false_def environ_get_def)
  have c: "twin_disk marked_dst = Some (regular 2 ''abc'')"
    by (simp add: twin_disk_def)
  have d: "Worker_process_file env_false ''/source/a.jpg'' (Inr (marked_run ''/source/a.jpg''))
       \<lparr>files = twin_disk, cmp_cache = []\<rparr> =
     ([Moved ''/source/a.jpg'' marked_dst, checking_line marked_dst, removed_line marked_dst],
      \<lparr>files = twin_disk(marked_dst := None), cmp_cache = [(twin_key, True)]\<rparr>, None)"
    using nonblank_a by (simp add: marked_run_step twin_check [OF env_false_applies])
  from a b c d show ?thesis by (simp add: checking_marked removed_marked)
qed

text \<open>
  Claim C4. The code does not do what the claim says when \<open>filecmp.cmp\<close> answers from its
  cache. The Worker renames \<open>/source/a.jpg\<close> to the marked destination, finds the primary
  with the same bytes and removes the marked file; the comparison is now in the cache
  under both paths and both signatures. It then renames \<open>/source/b.jpg\<close>, a file of other
  bytes with the same size and modification time, to the same marked destination, which
  is free again. \<open>filecmp.cmp\<close> finds the signatures of the first comparison and answers
  \<open>True\<close> without reading a byte, and the file is removed although the primary differs
  from it. With nothing in the cache the same item is compared and kept.
\<close>

theorem stale_comparison_deletes_different_file:
  "other_disk marked_dst = Some (regular 2 ''abd'') \<and>
   other_disk primary_dst = Some (regular 1 ''abc'') \<and>
   content (regular 2 ''abd'') \<noteq> content (regular 1 ''abc'') \<and>
   Worker_step env_default other_item \<lparr>files = Map.empty, cmp_cache = []\<rparr> =
     ([Moved ''/source/b.jpg'' marked_dst, checking_line marked_dst],
      \<lparr>files = other_disk, cmp_cache = [(twin_key, False)]\<rparr>, None) \<and>
   Worker_step env_default twin_item \<lparr>files = Map.empty, cmp_cache = []\<rparr> =
     ([Moved ''/source/a.jpg'' marked_dst, checking_line marked_dst, removed_line marked_dst],
      \<lparr>files = twin_disk(marked_dst := None), cmp_cache = [(twin_key, True)]\<rparr>, None) \<and>
   Worker_step env_default other_item
       \<lparr>files = twin_disk(marked_dst := None), cmp_cache = [(twin_key, True)]\<rparr> =
     ([Moved ''/source/b.jpg'' marked_dst, checking_line marked_dst, removed_line marked_dst],
      \<lparr>files = other_disk(marked_dst := None), cmp_cache = [(twin_key, True)]\<rparr>, None) \<and>
   Worker_run env_default [twin_item, other_item] \<lparr>files = Map.empty, cmp_cache = []\<rparr> =
     \<lparr>status = Waiting, errorCount = 0, unread = [],
      state = \<lparr>files = other_disk(marked_dst := None), cmp_cache = [(twin_key, True)]\<rparr>,
      logged =
        [Moved ''/source/a.jpg'' marked_dst, checking_line marked_dst, removed_line marked_dst,
         Moved ''/source/b.jpg'' marked_dst, checking_line marked_dst, removed_line marked_dst]\<rparr>"
proof -
  have a: "other_disk marked_dst = Some (regular 2 ''abd'')"
    "other_disk primary_dst = Some (regular 1 ''abc'')"
    "content (regular 2 ''abd'') \<noteq> content (regular 1 ''abc'')"
    by (simp_all add: other_disk_def regular_def marked_not_primary marked_not_primary [symmetric])
  have b: "Worker_step env_default other_item \<lparr>files = Map.empty, cmp_cache = []\<rparr> =
     ([Moved ''/source/b.jpg'' marked_dst, checking_line marked_dst],
      \<lparr>files = other_disk, cmp_cache = [(twin_key, False)]\<rparr>, None)"
    using nonblank_b
    by (simp add: Worker_step_def other_item_def marked_run_step
          other_check_fresh [OF env_default_applies])
  have c: "Worker_step env_default twin_item \<lparr>files = Map.empty, cmp_cache = []\<rparr> =
     ([Moved ''/source/a.jpg'' marked_dst, checking_line marked_dst, removed_line marked_dst],
      \<lparr>files = twin_disk(marked_dst := None), cmp_cache = [(twin_key, True)]\<rparr>, None)"
    using nonblank_a
    by (simp add: Worker_step_def twin_item_def marked_run_step
          twin_check [OF env_default_applies])
  have d: "Worker_step env_default other_item
       \<lparr>files = twin_disk(marked_dst := None), cmp_cache = [(twin_key, True)]\<rparr> =
     ([Moved ''/source/b.jpg'' marked_dst, checking_line marked_dst, removed_line marked_dst],
      \<lparr>files = other_disk(marked_dst := None), cmp_cache = [(twin_key, True)]\<rparr>, None)"
    using nonblank_b
    by (simp add: Worker_step_def other_item_def marked_run_step
          other_check_stale [OF env_default_applies])
  have e: "Worker_run env_default [twin_item, other_item] \<lparr>files = Map.empty, cmp_cache = []\<rparr> =
     \<lparr>status = Waiting, errorCount = 0, unread = [],
      state = \<lparr>files = other_disk(marked_dst := None), cmp_cache = [(twin_key, True)]\<rparr>,
      logged =
        [Moved ''/source/a.jpg'' marked_dst, checking_line marked_dst, removed_line marked_dst,
         Moved ''/source/b.jpg'' marked_dst, checking_line marked_dst, removed_line marked_dst]\<rparr>"
    by (simp add: Worker_run_def run_def c d)
  from a b c d e show ?thesis by (intro conjI)
qed

section \<open>Properties of the stability sweep\<close>

lemma stable_keys_filter: "stable_keys now a = map fst (filter (stable now) a)"
  by (induction a) (auto simp: stable_def)

lemma del_keys_filter:
  "distinct ks \<Longrightarrow> set ks \<subseteq> fst ` set a \<Longrightarrow>
   del_keys ks a = (filter (\<lambda>entry. fst entry \<notin> set ks) a, None)"
proof (induction ks arbitrary: a)
  case Nil
  then show ?case by simp
next
  case (Cons k ks)
  have del: "AList.delete k a = filter (\<lambda>entry. fst entry \<noteq> k) a"
    by (induction a) auto
  have sub: "set ks \<subseteq> fst ` set (AList.delete k a)"
  proof
    fix x assume x: "x \<in> set ks"
    with Cons.prems obtain entry where "entry \<in> set a" "fst entry = x" by auto
    moreover from x Cons.prems have "x \<noteq> k" by auto
    ultimately show "x \<in> fst ` set (AList.delete k a)" by (force simp: del)
  qed
  have "del_keys ks (AList.delete k a)
          = (filter (\<lambda>entry. fst entry \<notin> set ks) (AList.delete k a), None)"
    using Cons.prems sub by (intro Cons.IH) simp_all
  moreover have "filter (\<lambda>entry. fst entry \<notin> set ks) (AList.delete k a)
          = filter (\<lambda>entry. fst entry \<notin> set (k # ks)) a"
    by (auto simp: del intro: filter_cong)
  ultimately show ?case using Cons.prems by simp
qed

lemma stable_keys_member:
  "distinct (map fst a) \<Longrightarrow> entry \<in> set a \<Longrightarrow>
   (fst entry \<in> set (stable_keys now a)) = stable now entry"
proof -
  assume d: "distinct (map fst a)" and m: "entry \<in> set a"
  have "inj_on fst (set a)" using d by (simp add: distinct_map)
  then have "\<And>e'. e' \<in> set a \<Longrightarrow> fst e' = fst entry \<Longrightarrow> e' = entry"
    using m by (auto dest: inj_onD)
  then show ?thesis using m by (auto simp: stable_keys_filter)
qed

lemma sweep_keeps_unstable:
  assumes "distinct (map fst a)"
  shows "del_keys (stable_keys now a) a = (filter (\<lambda>entry. \<not> stable now entry) a, None)"
proof -
  have dk: "distinct (stable_keys now a)"
    using assms by (simp add: stable_keys_filter distinct_map_filter)
  have sub: "set (stable_keys now a) \<subseteq> fst ` set a"
    by (auto simp: stable_keys_filter)
  have "filter (\<lambda>entry. fst entry \<notin> set (stable_keys now a)) a
          = filter (\<lambda>entry. \<not> stable now entry) a"
    using stable_keys_member [OF assms] by (intro filter_cong) auto
  with del_keys_filter [OF dk sub] show ?thesis by simp
qed

lemma length_cancel: "length (cancel i ts) = length ts"
  by (simp add: cancel_def)

lemma check_actives_eq:
  assumes "distinct (map fst (active w))"
  shows "check_actives now w = (sweep_result now w, None)"
proof -
  have "del_keys (stable_keys now (active w)) (active w)
          = (filter (\<lambda>entry. \<not> stable now entry) (active w), None)"
    using assms by (rule sweep_keeps_unstable)
  then show ?thesis
    by (auto simp: check_actives_def Let_def sweep_result_def swept_def rescheduled_def
          stable_keys_filter length_cancel split: option.splits)
qed

lemma count_filtered_keys:
  "distinct (map fst a) \<Longrightarrow> (k, v) \<in> set a \<Longrightarrow>
   count_list (map fst (filter Q a)) k = (if Q (k, v) then 1 else 0)"
proof (induction a)
  case Nil
  then show ?case by simp
next
  case (Cons e a)
  show ?case
  proof (cases "e = (k, v)")
    case True
    with Cons.prems have "k \<notin> fst ` set a" by auto
    then have "k \<notin> set (map fst (filter Q a))" by auto
    then have "count_list (map fst (filter Q a)) k = 0" by (simp add: count_list_0_iff)
    with True show ?thesis by simp
  next
    case False
    with Cons.prems have m: "(k, v) \<in> set a" by auto
    have "fst e \<notin> fst ` set a" using Cons.prems by simp
    moreover from m have "k \<in> fst ` set a" by (metis fst_conv image_eqI)
    ultimately have ne: "fst e \<noteq> k" by metis
    from Cons.prems have "distinct (map fst a)" by simp
    from Cons.IH [OF this m] ne show ?thesis by simp
  qed
qed

lemma map_of_filtered:
  "distinct (map fst a) \<Longrightarrow> (k, v) \<in> set a \<Longrightarrow>
   map_of (filter Q a) k = (if Q (k, v) then Some v else None)"
proof (induction a)
  case Nil
  then show ?case by simp
next
  case (Cons e a)
  show ?case
  proof (cases "e = (k, v)")
    case True
    with Cons.prems have "k \<notin> fst ` set a" by auto
    then have "k \<notin> fst ` set (filter Q a)" by auto
    then have "map_of (filter Q a) k = None" by (simp add: map_of_eq_None_iff)
    with True show ?thesis by simp
  next
    case False
    with Cons.prems have m: "(k, v) \<in> set a" by auto
    have "fst e \<notin> fst ` set a" using Cons.prems by simp
    moreover from m have "k \<in> fst ` set a" by (metis fst_conv image_eqI)
    ultimately have ne: "fst e \<noteq> k" by metis
    from Cons.prems have "distinct (map fst a)" by simp
    from Cons.IH [OF this m] ne show ?thesis by simp
  qed
qed


section \<open>A sweep that no other thread interrupts\<close>

lemma sweep_steps_add:
  "sweep_steps (j + k) t p w =
     (case sweep_steps j t p w of
        (Inl x, w') \<Rightarrow> (Inl x, w')
      | (Inr p', w') \<Rightarrow> sweep_steps k t p' w')"
  by (induction j arbitrary: p w) (auto split: prod.splits sum.splits)

text \<open>The loop of lines 148 to 151, from any position to the end of the dictionary.\<close>

lemma sweep_iterate:
  "m = length (active w) - pos \<Longrightarrow> pos \<le> length (active w) \<Longrightarrow>
   sweep_steps (Suc m) t (Iterating now (length (active w)) pos dk) w =
     (Inr (Deleting (dk @ stable_keys now (drop pos (active w)))),
      w\<lparr>workq := workq w @ stable_keys now (drop pos (active w))\<rparr>)"
proof (induction m arbitrary: pos dk w)
  case 0
  then show ?case by simp
next
  case (Suc m)
  then have lt: "pos < length (active w)" by simp
  obtain filepath tstamp where e: "active w ! pos = (filepath, tstamp)"
    by (cases "active w ! pos") auto
  have dr: "drop pos (active w) = (filepath, tstamp) # drop (Suc pos) (active w)"
    using lt e by (metis Cons_nth_drop_Suc)
  show ?case
  proof (cases "now - tstamp > 30")
    case True
    let ?w' = "w\<lparr>workq := workq w @ [filepath]\<rparr>"
    have one: "sweep_step t (Iterating now (length (active w)) pos dk) w
                 = (Inr (Iterating now (length (active w)) (Suc pos) (dk @ [filepath])), ?w')"
      using lt e True by simp
    have "sweep_steps (Suc m) t (Iterating now (length (active ?w')) (Suc pos) (dk @ [filepath])) ?w'
            = (Inr (Deleting ((dk @ [filepath]) @ stable_keys now (drop (Suc pos) (active ?w')))),
               ?w'\<lparr>workq := workq ?w' @ stable_keys now (drop (Suc pos) (active ?w'))\<rparr>)"
      using Suc.prems lt by (intro Suc.IH) simp_all
    then show ?thesis
      using True by (simp only: sweep_steps.simps(2) [of "Suc m"] one dr) simp
  next
    case False
    have one: "sweep_step t (Iterating now (length (active w)) pos dk) w
                 = (Inr (Iterating now (length (active w)) (Suc pos) dk), w)"
      using lt e False by simp
    have "sweep_steps (Suc m) t (Iterating now (length (active w)) (Suc pos) dk) w
            = (Inr (Deleting (dk @ stable_keys now (drop (Suc pos) (active w)))),
               w\<lparr>workq := workq w @ stable_keys now (drop (Suc pos) (active w))\<rparr>)"
      using Suc.prems lt by (intro Suc.IH) simp_all
    then show ?thesis
      using False by (simp only: sweep_steps.simps(2) [of "Suc m"] one dr) simp
  qed
qed

text \<open>The loop of lines 152 and 153.\<close>

lemma sweep_delete:
  "del_keys ks (active w) = (a, None) \<Longrightarrow>
   sweep_steps (Suc (length ks)) t (Deleting ks) w = (Inr Checking, w\<lparr>active := a\<rparr>)"
proof (induction ks arbitrary: w)
  case Nil
  then show ?case by simp
next
  case (Cons k ks)
  show ?case
  proof (cases "k \<in> fst ` set (active w)")
    case True
    let ?w' = "w\<lparr>active := AList.delete k (active w)\<rparr>"
    from Cons.prems True have "del_keys ks (active ?w') = (a, None)" by simp
    then have "sweep_steps (Suc (length ks)) t (Deleting ks) ?w' = (Inr Checking, ?w'\<lparr>active := a\<rparr>)"
      by (rule Cons.IH)
    then show ?thesis using True by simp
  next
    case False
    with Cons.prems show ?thesis by simp
  qed
qed

text \<open>Lines 155 to 159.\<close>

lemma start_created:
  "start (length ts) (ts @ [\<lparr>interval = 5, tstatus = Created\<rparr>])
     = Inr (ts @ [\<lparr>interval = 5, tstatus = Pending\<rparr>])"
  by (simp add: start_def set_status_def)

lemma sweep_reschedule:
  "active w \<noteq> [] \<Longrightarrow> sweep_steps 4 t Checking w = (Inr Idle, rescheduled w)"
  by (cases "timer w")
     (simp_all add: numeral_eq_Suc rescheduled_def start_created length_cancel
        start_created [of "cancel i ts" for i ts, simplified length_cancel])

lemma sweep_no_reschedule:
  "active w = [] \<Longrightarrow> sweep_steps 1 t Checking w = (Inr Idle, w)"
  by simp

text \<open>
  The whole of \<open>check_actives\<close>, run from \<open>Begin\<close> with no other thread in between: it
  returns after finitely many steps, without an exception, and has moved the stable entries
  to the work queue and rescheduled when entries are left.
\<close>

lemma sweep_alone:
  assumes "distinct (map fst (active w))"
  shows "sweep_steps (length (active w) + length (stable_keys now (active w)) + 7) now Begin w
           = (Inr Idle, sweep_result now w)"
proof -
  let ?n = "length (active w)"
  let ?ks = "stable_keys now (active w)"
  let ?w1 = "w\<lparr>workq := workq w @ ?ks\<rparr>"
  let ?w2 = "?w1\<lparr>active := filter (\<lambda>entry. \<not> stable now entry) (active w)\<rparr>"
  have w2: "?w2 = swept now w"
    by (simp add: swept_def stable_keys_filter)
  have a: "sweep_steps 1 now Begin w = (Inr (Iterating now ?n 0 []), w)" by simp
  have b: "sweep_steps (Suc ?n) now (Iterating now ?n 0 []) w = (Inr (Deleting ?ks), ?w1)"
    using sweep_iterate [of ?n w 0 now now "[]"] by simp
  have "del_keys ?ks (active ?w1) = (filter (\<lambda>entry. \<not> stable now entry) (active w), None)"
    using sweep_keeps_unstable [OF assms] by simp
  then have c: "sweep_steps (Suc (length ?ks)) now (Deleting ?ks) ?w1 = (Inr Checking, ?w2)"
    by (rule sweep_delete)
  have d: "sweep_steps 4 now Checking ?w2 = (Inr Idle, sweep_result now w)"
  proof (cases "filter (\<lambda>entry. \<not> stable now entry) (active w) = []")
    case True
    then have "sweep_steps 4 now Checking ?w2 = (Inr Idle, ?w2)"
      by (simp add: numeral_eq_Suc)
    with True w2 show ?thesis by (simp add: sweep_result_def)
  next
    case False
    then have "active ?w2 \<noteq> []" by simp
    then have "sweep_steps 4 now Checking ?w2 = (Inr Idle, rescheduled ?w2)"
      by (rule sweep_reschedule)
    with False w2 show ?thesis by (simp add: sweep_result_def)
  qed
  have "sweep_steps (?n + length ?ks + 7) now Begin w
          = sweep_steps (1 + (Suc ?n + (Suc (length ?ks) + 4))) now Begin w"
    by (rule arg_cong [where f = "\<lambda>k. sweep_steps k now Begin w"]) simp
  also have "\<dots> = sweep_steps (Suc ?n + (Suc (length ?ks) + 4)) now (Iterating now ?n 0 []) w"
    by (simp only: sweep_steps_add [of 1] a) simp
  also have "\<dots> = sweep_steps (Suc (length ?ks) + 4) now (Deleting ?ks) ?w1"
    by (simp only: sweep_steps_add [of "Suc ?n"] b) simp
  also have "\<dots> = sweep_steps 4 now Checking ?w2"
    by (simp only: sweep_steps_add [of "Suc (length ?ks)"] c) simp
  finally show ?thesis by (simp only: d)
qed

section \<open>The sweep and the watch queue\<close>

text \<open>
  Claim C5. The code does not do what the claim says when a path arrives while a timer's
  thread is inside the loop of line 148. The dictionary holds \<open>/source/a.jpg\<close> and
  \<open>/source/b.jpg\<close>, both quiet for more than 30 time units at time 151. The timer fires and
  its thread puts \<open>/source/a.jpg\<close> on the work queue (line 150). The Watcher thread then
  takes \<open>/source/c.jpg\<close> from the watch queue and stores it (line 164). The iterator of the
  timer's thread finds the dictionary larger and raises \<open>RuntimeError\<close>, which
  \<open>LoggingTimer.run\<close> logs: lines 152 and 153 are never reached, so \<open>/source/a.jpg\<close> is
  on the work queue and still in the dictionary. The sweep the Watcher thread goes on to
  run (line 165) puts it on the work queue a second time.
\<close>

theorem torn_sweep_pushes_path_twice:
  "obj (exec (take 5 torn_sweep) (at_rest two_active)) =
     \<lparr>workq = [''/source/m.mov'', ''/source/a.jpg''], watchq = [],
      active = [(''/source/a.jpg'', 100), (''/source/b.jpg'', 120), (''/source/c.jpg'', 151)],
      timer = Some 0, timers = [\<lparr>interval = 5, tstatus = Running\<rparr>]\<rparr> \<and>
   tracebacks (exec (take 5 torn_sweep) (at_rest two_active)) = [Traceback RuntimeError] \<and>
   pcs (exec (take 5 torn_sweep) (at_rest two_active)) (Timer_thread 0) = Idle \<and>
   pcs (exec (take 5 torn_sweep) (at_rest two_active)) Watcher_thread = Begin \<and>
   obj (exec torn_sweep (at_rest two_active)) =
     \<lparr>workq = [''/source/m.mov'', ''/source/a.jpg'', ''/source/a.jpg'', ''/source/b.jpg''],
      watchq = [], active = [(''/source/c.jpg'', 151)], timer = Some 1,
      timers = [\<lparr>interval = 5, tstatus = Finished\<rparr>, \<lparr>interval = 5, tstatus = Pending\<rparr>]\<rparr> \<and>
   pcs (exec torn_sweep (at_rest two_active)) Watcher_thread = Idle \<and>
   count_list (workq (obj (exec torn_sweep (at_rest two_active)))) ''/source/a.jpg'' = 2"
  by (simp add: exec_def torn_sweep_def at_rest_def two_active_def disk_a_def regular_def
        os_path_exists_def os_stat_st_size_def os_stat_def st_size_def set_status_def
        cancel_def start_def)

lemma disk_a_files:
  "disk_a ''/source/a.jpg'' = Some (regular 1 ''abc'')" "disk_a ''/source/b.jpg'' = Some (regular 1 [])"
  "disk_a ''/source/c.jpg'' = Some (regular 1 ''xyz'')" "disk_a ''/source/d.jpg'' = None"
  by (simp_all add: disk_a_def)

text \<open>
  Claim C8. A path taken from the watch queue that is missing from the disk or has size
  zero leaves everything as it was: the dictionary, the timers and the queues are
  unchanged and the Watcher thread does not enter \<open>check_actives\<close>. For a path with a size
  above zero, the Watcher thread stores the clock reading \<open>stamp\<close> under the path and is
  at the first line of \<open>check_actives\<close>. That sweep, when no other thread is inside
  \<open>check_actives\<close> while it runs and the keys of the dictionary are distinct, returns
  after finitely many steps and has moved every entry older than 30 time units, and no
  other, from the dictionary to the end of the work queue, and has cancelled the old timer
  and started a new one when entries are left; and this is what \<open>Watcher.process_file\<close>
  returns, without an exception. A sweep that runs no more than 30 time units after
  \<open>stamp\<close> leaves the path in the dictionary with this timestamp.
\<close>

theorem zero_size_path_discarded:
  "(d path = None \<or> (\<exists>f. d path = Some f \<and> content f = []) \<longrightarrow>
      act (Dequeue path d stamp) s = s \<and>
      Watcher_process_file d stamp now path w = (w, None)) \<and>
   (\<forall>f. d path = Some f \<and> content f \<noteq> [] \<longrightarrow>
      (pcs s Watcher_thread = Idle \<and> watcher_errors s < 5 \<longrightarrow>
         act (Dequeue path d stamp) s =
           s\<lparr>obj := (obj s)\<lparr>active := AList.update path stamp (active (obj s))\<rparr>,
             pcs := (pcs s)(Watcher_thread := Begin)\<rparr>) \<and>
      map_of (AList.update path stamp (active w)) path = Some stamp \<and>
      Watcher_process_file d stamp now path w
        = check_actives now (w\<lparr>active := AList.update path stamp (active w)\<rparr>) \<and>
      (distinct (map fst (active w)) \<longrightarrow>
         (\<exists>k. sweep_steps k now Begin (w\<lparr>active := AList.update path stamp (active w)\<rparr>)
               = (Inr Idle, sweep_result now (w\<lparr>active := AList.update path stamp (active w)\<rparr>))) \<and>
         Watcher_process_file d stamp now path w
           = (sweep_result now (w\<lparr>active := AList.update path stamp (active w)\<rparr>), None) \<and>
         (\<not> now - stamp > 30 \<longrightarrow>
            map_of (active (fst (Watcher_process_file d stamp now path w))) path = Some stamp)))"
proof -
  let ?w1 = "w\<lparr>active := AList.update path stamp (active w)\<rparr>"
  have zero: "d path = None \<or> (\<exists>f. d path = Some f \<and> content f = []) \<longrightarrow>
      act (Dequeue path d stamp) s = s \<and>
      Watcher_process_file d stamp now path w = (w, None)"
    by (auto simp: Watcher_process_file_def os_path_exists_def os_stat_st_size_def os_stat_def
          st_size_def)
  have pos: "\<forall>f. d path = Some f \<and> content f \<noteq> [] \<longrightarrow>
      (pcs s Watcher_thread = Idle \<and> watcher_errors s < 5 \<longrightarrow>
         act (Dequeue path d stamp) s =
           s\<lparr>obj := (obj s)\<lparr>active := AList.update path stamp (active (obj s))\<rparr>,
             pcs := (pcs s)(Watcher_thread := Begin)\<rparr>) \<and>
      map_of (AList.update path stamp (active w)) path = Some stamp \<and>
      Watcher_process_file d stamp now path w = check_actives now ?w1 \<and>
      (distinct (map fst (active w)) \<longrightarrow>
         (\<exists>k. sweep_steps k now Begin ?w1 = (Inr Idle, sweep_result now ?w1)) \<and>
         Watcher_process_file d stamp now path w = (sweep_result now ?w1, None) \<and>
         (\<not> now - stamp > 30 \<longrightarrow>
            map_of (active (fst (Watcher_process_file d stamp now path w))) path = Some stamp))"
  proof (intro allI impI)
    fix f assume f: "d path = Some f \<and> content f \<noteq> []"
    have deq: "pcs s Watcher_thread = Idle \<and> watcher_errors s < 5 \<longrightarrow>
         act (Dequeue path d stamp) s =
           s\<lparr>obj := (obj s)\<lparr>active := AList.update path stamp (active (obj s))\<rparr>,
             pcs := (pcs s)(Watcher_thread := Begin)\<rparr>"
      using f by (simp add: os_path_exists_def os_stat_st_size_def os_stat_def st_size_def)
    have set: "map_of (AList.update path stamp (active w)) path = Some stamp"
      by (simp add: update_conv')
    have run: "Watcher_process_file d stamp now path w = check_actives now ?w1"
      using f by (simp add: Watcher_process_file_def os_path_exists_def os_stat_st_size_def
            os_stat_def st_size_def)
    have alone: "distinct (map fst (active w)) \<longrightarrow>
         (\<exists>k. sweep_steps k now Begin ?w1 = (Inr Idle, sweep_result now ?w1)) \<and>
         Watcher_process_file d stamp now path w = (sweep_result now ?w1, None) \<and>
         (\<not> now - stamp > 30 \<longrightarrow>
            map_of (active (fst (Watcher_process_file d stamp now path w))) path = Some stamp)"
    proof
      assume "distinct (map fst (active w))"
      then have dist: "distinct (map fst (active ?w1))" by (simp add: distinct_update)
      have a: "\<exists>k. sweep_steps k now Begin ?w1 = (Inr Idle, sweep_result now ?w1)"
        using sweep_alone [OF dist, of now] by blast
      have b: "Watcher_process_file d stamp now path w = (sweep_result now ?w1, None)"
        using check_actives_eq [OF dist, of now] by (simp only: run)
      have c: "\<not> now - stamp > 30 \<longrightarrow>
            map_of (active (fst (Watcher_process_file d stamp now path w))) path = Some stamp"
      proof
        assume young: "\<not> now - stamp > 30"
        have mem: "(path, stamp) \<in> set (active ?w1)"
          using set by (simp add: map_of_SomeD)
        have "map_of (filter (\<lambda>entry. \<not> stable now entry) (active ?w1)) path
                = (if \<not> stable now (path, stamp) then Some stamp else None)"
          using dist mem by (rule map_of_filtered)
        moreover have "active (sweep_result now ?w1)
                = filter (\<lambda>entry. \<not> stable now entry) (active ?w1)"
          by (simp add: sweep_result_def swept_def rescheduled_def)
        ultimately show "map_of (active (fst (Watcher_process_file d stamp now path w))) path = Some stamp"
          using young by (simp only: b fst_conv) (simp add: stable_def)
      qed
      from a b c
      show "(\<exists>k. sweep_steps k now Begin ?w1 = (Inr Idle, sweep_result now ?w1)) \<and>
         Watcher_process_file d stamp now path w = (sweep_result now ?w1, None) \<and>
         (\<not> now - stamp > 30 \<longrightarrow>
            map_of (active (fst (Watcher_process_file d stamp now path w))) path = Some stamp)"
        by (intro conjI)
    qed
    from deq set run alone
    show "(pcs s Watcher_thread = Idle \<and> watcher_errors s < 5 \<longrightarrow>
         act (Dequeue path d stamp) s =
           s\<lparr>obj := (obj s)\<lparr>active := AList.update path stamp (active (obj s))\<rparr>,
             pcs := (pcs s)(Watcher_thread := Begin)\<rparr>) \<and>
      map_of (AList.update path stamp (active w)) path = Some stamp \<and>
      Watcher_process_file d stamp now path w = check_actives now ?w1 \<and>
      (distinct (map fst (active w)) \<longrightarrow>
         (\<exists>k. sweep_steps k now Begin ?w1 = (Inr Idle, sweep_result now ?w1)) \<and>
         Watcher_process_file d stamp now path w = (sweep_result now ?w1, None) \<and>
         (\<not> now - stamp > 30 \<longrightarrow>
            map_of (active (fst (Watcher_process_file d stamp now path w))) path = Some stamp))"
      by (intro conjI)
  qed
  from zero pos show ?thesis by (intro conjI)
qed

lemma two_active_distinct: "distinct (map fst (active two_active))"
  by (simp add: two_active_def)

lemma two_active_swept:
  "sweep_result 151 (two_active\<lparr>active := AList.update ''/source/c.jpg'' 151 (active two_active)\<rparr>)
     = \<lparr>workq = [''/source/m.mov'', ''/source/a.jpg'', ''/source/b.jpg''], watchq = [],
        active = [(''/source/c.jpg'', 151)], timer = Some 1,
        timers = [\<lparr>interval = 5, tstatus = Finished\<rparr>, \<lparr>interval = 5, tstatus = Pending\<rparr>]\<rparr>"
  by (simp add: sweep_result_def swept_def rescheduled_def stable_def two_active_def cancel_def)

theorem zero_size_path_discarded_witness:
  "disk_a ''/source/b.jpg'' = Some (regular 1 []) \<and>
   act (Dequeue ''/source/b.jpg'' disk_a 151) (at_rest two_active) = at_rest two_active \<and>
   Watcher_process_file disk_a 151 151 ''/source/b.jpg'' two_active = (two_active, None) \<and>
   disk_a ''/source/d.jpg'' = None \<and>
   act (Dequeue ''/source/d.jpg'' disk_a 151) (at_rest two_active) = at_rest two_active \<and>
   Watcher_process_file disk_a 151 151 ''/source/d.jpg'' two_active = (two_active, None) \<and>
   disk_a ''/source/c.jpg'' = Some (regular 1 ''xyz'') \<and>
   pcs (act (Dequeue ''/source/c.jpg'' disk_a 151) (at_rest two_active)) Watcher_thread = Begin \<and>
   active (obj (act (Dequeue ''/source/c.jpg'' disk_a 151) (at_rest two_active)))
     = [(''/source/a.jpg'', 100), (''/source/b.jpg'', 120), (''/source/c.jpg'', 151)] \<and>
   Watcher_process_file disk_a 151 151 ''/source/c.jpg'' two_active =
     (\<lparr>workq = [''/source/m.mov'', ''/source/a.jpg'', ''/source/b.jpg''], watchq = [],
       active = [(''/source/c.jpg'', 151)], timer = Some 1,
       timers = [\<lparr>interval = 5, tstatus = Finished\<rparr>, \<lparr>interval = 5, tstatus = Pending\<rparr>]\<rparr>,
      None)"
proof -
  have eb: "disk_a ''/source/b.jpg'' = None \<or>
      (\<exists>f. disk_a ''/source/b.jpg'' = Some f \<and> content f = [])"
    by (simp add: disk_a_files regular_def)
  have ed: "disk_a ''/source/d.jpg'' = None \<or>
      (\<exists>f. disk_a ''/source/d.jpg'' = Some f \<and> content f = [])"
    by (simp add: disk_a_files)
  have nz: "disk_a ''/source/c.jpg'' = Some (regular 1 ''xyz'') \<and> content (regular 1 ''xyz'') \<noteq> []"
    by (simp add: disk_a_files regular_def)
  have idle: "pcs (at_rest two_active) Watcher_thread = Idle \<and> watcher_errors (at_rest two_active) < 5"
    by (simp add: at_rest_def)
  note b = zero_size_path_discarded [of disk_a "''/source/b.jpg''" 151 "at_rest two_active" 151
      two_active, THEN conjunct1, rule_format, OF eb]
  note d = zero_size_path_discarded [of disk_a "''/source/d.jpg''" 151 "at_rest two_active" 151
      two_active, THEN conjunct1, rule_format, OF ed]
  note c = zero_size_path_discarded [of disk_a "''/source/c.jpg''" 151 "at_rest two_active" 151
      two_active, THEN conjunct2, rule_format, OF nz]
  have c1: "act (Dequeue ''/source/c.jpg'' disk_a 151) (at_rest two_active) =
      (at_rest two_active)\<lparr>obj := (obj (at_rest two_active))
          \<lparr>active := AList.update ''/source/c.jpg'' 151 (active (obj (at_rest two_active)))\<rparr>,
        pcs := (pcs (at_rest two_active))(Watcher_thread := Begin)\<rparr>"
    using c [THEN conjunct1, rule_format, OF idle] .
  have c2: "pcs (act (Dequeue ''/source/c.jpg'' disk_a 151) (at_rest two_active)) Watcher_thread = Begin"
    by (simp only: c1) simp
  have c3: "active (obj (act (Dequeue ''/source/c.jpg'' disk_a 151) (at_rest two_active)))
     = [(''/source/a.jpg'', 100), (''/source/b.jpg'', 120), (''/source/c.jpg'', 151)]"
    by (simp only: c1) (simp add: at_rest_def two_active_def)
  have c4: "Watcher_process_file disk_a 151 151 ''/source/c.jpg'' two_active =
      (sweep_result 151 (two_active\<lparr>active := AList.update ''/source/c.jpg'' 151 (active two_active)\<rparr>), None)"
    using c [THEN conjunct2, THEN conjunct2, THEN conjunct2, rule_format, OF two_active_distinct]
    by (rule conjunct2 [THEN conjunct1])
  from disk_a_files b d c2 c3 c4 [unfolded two_active_swept] show ?thesis by (intro conjI) simp_all
qed

section \<open>The re-check timer\<close>

text \<open>
  Claim C6. The code does not do what the claim says when two threads are inside
  \<open>check_actives\<close> at once. One timer is waiting and the dictionary holds
  \<open>/source/a.jpg\<close>. The Watcher thread takes \<open>/source/c.jpg\<close> from the watch queue and
  calls \<open>check_actives\<close>; the timer fires and its thread calls it too. Both find the
  dictionary non-empty (line 155). Both pass lines 156 and 157 and cancel the timer that
  fired. The Watcher thread then makes and starts a timer (lines 158 and 159), and so does
  the timer's thread, which overwrites \<open>self.timer\<close>: the first of the two timers is
  waiting and nothing refers to it, the second is waiting too.
\<close>

theorem crossed_sweeps_leave_two_timers:
  "pending_timers one_active = [0] \<and>
   pcs (exec (take 14 crossed_sweeps) (at_rest one_active)) Watcher_thread = Cancelling \<and>
   pcs (exec (take 14 crossed_sweeps) (at_rest one_active)) (Timer_thread 0) = Cancelling \<and>
   obj (exec crossed_sweeps (at_rest one_active)) =
     \<lparr>workq = [], watchq = [],
      active = [(''/source/a.jpg'', 100), (''/source/c.jpg'', 104)], timer = Some 2,
      timers = [\<lparr>interval = 5, tstatus = Finished\<rparr>, \<lparr>interval = 5, tstatus = Pending\<rparr>,
                \<lparr>interval = 5, tstatus = Pending\<rparr>]\<rparr> \<and>
   pending_timers (obj (exec crossed_sweeps (at_rest one_active))) = [1, 2] \<and>
   pcs (exec crossed_sweeps (at_rest one_active)) Watcher_thread = Idle \<and>
   pcs (exec crossed_sweeps (at_rest one_active)) (Timer_thread 0) = Idle \<and>
   tracebacks (exec crossed_sweeps (at_rest one_active)) = []"
  by (simp add: exec_def crossed_sweeps_def at_rest_def one_active_def disk_a_def regular_def
        os_path_exists_def os_stat_st_size_def os_stat_def st_size_def set_status_def
        cancel_def start_def pending_timers_def upt_rec)

end
